theory Spec2Isabelle
  imports Complex_Main "HOL-Library.Word"
begin

unbundle bit_operations_syntax

section \<open>Faults\<close>

text \<open>
  The two ways in which the C++ code stops without returning: a failed \<^verbatim>\<open>assert\<close> and a
  read past the end of an array or vector (undefined behaviour).  Functions that can
  stop in one of these ways return \<open>fault + 'a\<close>, with \<open>Inl\<close> for the fault.
\<close>

datatype fault = AssertionFailure | OutOfBounds

section \<open>AddressMap\<close>

text \<open>
  Modelled from the spec: the enumeration \<^verbatim>\<open>AddressMap::DisasmRegion\<close> is declared in
  disasm.h, which is not part of the sources.  The spec describes the values as
  OR-combinable flags with UNMAPPED exclusive of the others: UNMAPPED is the empty
  mask, every other flag is a bit of its own.
\<close>

definition DISASM_REGION_UNMAPPED :: "32 word" where
  "DISASM_REGION_UNMAPPED = 0x0000"

definition DISASM_REGION_CODE :: "32 word" where
  "DISASM_REGION_CODE = 0x0001"

definition DISASM_REGION_INS_START :: "32 word" where
  "DISASM_REGION_INS_START = 0x0100"

definition DISASM_REGION_BB_START :: "32 word" where
  "DISASM_REGION_BB_START = 0x0200"

text \<open>
  The three members of the class: \<^verbatim>\<open>std::map<uint64_t, unsigned> addrmap\<close>,
  \<^verbatim>\<open>std::vector<uint64_t> unmapped\<close> and \<^verbatim>\<open>std::map<uint64_t, size_t> unmapped_lookup\<close>.
\<close>

record AddressMap =
  addrmap :: "64 word \<rightharpoonup> 32 word"
  unmapped :: "64 word list"
  unmapped_lookup :: "64 word \<rightharpoonup> nat"

definition AddressMap_empty :: AddressMap where
  "AddressMap_empty = \<lparr>addrmap = Map.empty, unmapped = [], unmapped_lookup = Map.empty\<rparr>"

definition AddressMap_contains :: "AddressMap \<Rightarrow> 64 word \<Rightarrow> bool" where
  "AddressMap_contains am addr \<longleftrightarrow> addrmap am addr \<noteq> None \<or> unmapped_lookup am addr \<noteq> None"

definition AddressMap_insert :: "AddressMap \<Rightarrow> 64 word \<Rightarrow> AddressMap" where
  "AddressMap_insert am addr =
     (if \<not> AddressMap_contains am addr
      then am\<lparr>unmapped := unmapped am @ [addr],
              unmapped_lookup := (unmapped_lookup am)(addr \<mapsto> length (unmapped am @ [addr]) - 1)\<rparr>
      else am)"

definition AddressMap_unmapped_count :: "AddressMap \<Rightarrow> nat" where
  "AddressMap_unmapped_count am = length (unmapped am)"

text \<open>\<^verbatim>\<open>unmapped[i]\<close> past the end of the vector is undefined behaviour.\<close>

definition AddressMap_get_unmapped :: "AddressMap \<Rightarrow> nat \<Rightarrow> fault + 64 word" where
  "AddressMap_get_unmapped am i =
     (if i < length (unmapped am) then Inr (unmapped am ! i) else Inl OutOfBounds)"

text \<open>
  \<^verbatim>\<open>erase_unmapped\<close>: swap the last element into the slot of \<open>addr\<close>, update its index,
  drop \<open>addr\<close> from the index and shrink the vector.  The statements are kept in the
  order of the source: \<^verbatim>\<open>unmapped.back()\<close> is read again after the assignment to
  \<^verbatim>\<open>unmapped[i]\<close>.  (In a state where the stored index lies outside the vector, or where
  the vector is empty, the C++ is undefined; lemma \<open>lookup_in_bounds\<close> below shows
  that no state built by the member functions is such a state.)
\<close>

definition AddressMap_erase_unmapped :: "AddressMap \<Rightarrow> 64 word \<Rightarrow> AddressMap" where
  "AddressMap_erase_unmapped am addr =
     (case unmapped_lookup am addr of
        None \<Rightarrow> am
      | Some i \<Rightarrow>
          let am1 =
                (if AddressMap_unmapped_count am > 1
                 then let u1 = (unmapped am)[i := last (unmapped am)]
                      in am\<lparr>unmapped := u1,
                             unmapped_lookup := (unmapped_lookup am)(last u1 \<mapsto> i)\<rparr>
                 else am)
          in am1\<lparr>unmapped_lookup := (unmapped_lookup am1)(addr := None),
                  unmapped := butlast (unmapped am1)\<rparr>)"

text \<open>
  The accessors assert \<^verbatim>\<open>contains(addr)\<close> and test it again.  With assertions compiled
  in, a failed assertion stops the program; with \<^verbatim>\<open>NDEBUG\<close> the second test makes the
  call a no-op.  The build flag is the parameter \<open>ndebug\<close>.
  \<^verbatim>\<open>addrmap[addr]\<close> creates the entry with value 0 when it is missing.
\<close>

definition AddressMap_get_addr_type :: "bool \<Rightarrow> AddressMap \<Rightarrow> 64 word \<Rightarrow> fault + (32 word \<times> AddressMap)" where
  "AddressMap_get_addr_type ndebug am addr =
     (if \<not> AddressMap_contains am addr
      then (if ndebug then Inr (DISASM_REGION_UNMAPPED, am) else Inl AssertionFailure)
      else (case addrmap am addr of
              Some t \<Rightarrow> Inr (t, am)
            | None \<Rightarrow> Inr (0, am\<lparr>addrmap := (addrmap am)(addr \<mapsto> 0)\<rparr>)))"

definition AddressMap_set_addr_type :: "bool \<Rightarrow> AddressMap \<Rightarrow> 64 word \<Rightarrow> 32 word \<Rightarrow> fault + AddressMap" where
  "AddressMap_set_addr_type ndebug am addr type =
     (if \<not> AddressMap_contains am addr
      then (if ndebug then Inr am else Inl AssertionFailure)
      else let am1 = (if type \<noteq> DISASM_REGION_UNMAPPED
                      then AddressMap_erase_unmapped am addr else am)
           in Inr (am1\<lparr>addrmap := (addrmap am1)(addr \<mapsto> type)\<rparr>))"

definition AddressMap_add_addr_flag :: "bool \<Rightarrow> AddressMap \<Rightarrow> 64 word \<Rightarrow> 32 word \<Rightarrow> fault + AddressMap" where
  "AddressMap_add_addr_flag ndebug am addr flag =
     (if \<not> AddressMap_contains am addr
      then (if ndebug then Inr am else Inl AssertionFailure)
      else let am1 = (if flag \<noteq> DISASM_REGION_UNMAPPED
                      then AddressMap_erase_unmapped am addr else am)
           in Inr (am1\<lparr>addrmap := (addrmap am1)
                      (addr \<mapsto> (case addrmap am1 addr of None \<Rightarrow> 0 | Some t \<Rightarrow> t) OR flag)\<rparr>))"

definition AddressMap_erase :: "AddressMap \<Rightarrow> 64 word \<Rightarrow> AddressMap" where
  "AddressMap_erase am addr =
     (let am1 = (if addrmap am addr \<noteq> None
                 then am\<lparr>addrmap := (addrmap am)(addr := None)\<rparr> else am)
      in AddressMap_erase_unmapped am1 addr)"

text \<open>
  A history of an AddressMap object: the calls of its state-changing member functions,
  in order, from the empty map of the constructor.  (The members are only reached
  through these functions.)
\<close>

datatype AddressMap_call =
    Call_insert "64 word"
  | Call_get_addr_type "64 word"
  | Call_set_addr_type "64 word" "32 word"
  | Call_add_addr_flag "64 word" "32 word"
  | Call_erase "64 word"
  | Call_erase_unmapped "64 word"

fun AddressMap_apply :: "bool \<Rightarrow> AddressMap \<Rightarrow> AddressMap_call \<Rightarrow> fault + AddressMap" where
  "AddressMap_apply ndebug am (Call_insert a) = Inr (AddressMap_insert am a)"
| "AddressMap_apply ndebug am (Call_get_addr_type a) =
     (case AddressMap_get_addr_type ndebug am a of Inl f \<Rightarrow> Inl f | Inr (t, am') \<Rightarrow> Inr am')"
| "AddressMap_apply ndebug am (Call_set_addr_type a t) = AddressMap_set_addr_type ndebug am a t"
| "AddressMap_apply ndebug am (Call_add_addr_flag a f) = AddressMap_add_addr_flag ndebug am a f"
| "AddressMap_apply ndebug am (Call_erase a) = Inr (AddressMap_erase am a)"
| "AddressMap_apply ndebug am (Call_erase_unmapped a) = Inr (AddressMap_erase_unmapped am a)"

fun AddressMap_calls :: "bool \<Rightarrow> AddressMap \<Rightarrow> AddressMap_call list \<Rightarrow> fault + AddressMap" where
  "AddressMap_calls ndebug am [] = Inr am"
| "AddressMap_calls ndebug am (c # cs) =
     (case AddressMap_apply ndebug am c of
        Inl f \<Rightarrow> Inl f
      | Inr am' \<Rightarrow> AddressMap_calls ndebug am' cs)"

text \<open>
  The class invariant of the unmapped working set: the vector has no duplicates and
  the index maps exactly the addresses of the vector to their positions.
\<close>

definition unmapped_consistent :: "AddressMap \<Rightarrow> bool" where
  "unmapped_consistent am \<longleftrightarrow>
     distinct (unmapped am) \<and>
     (\<forall>a i. unmapped_lookup am a = Some i \<longleftrightarrow> i < length (unmapped am) \<and> unmapped am ! i = a)"


section \<open>The loaded binary\<close>

text \<open>
  Modelled from the spec: \<^verbatim>\<open>Binary\<close> and \<^verbatim>\<open>Section\<close> are declared in loader.h, which is
  not part of the sources.  The fields are the ones the disassembler reads; \<^verbatim>\<open>vma\<close> and
  \<^verbatim>\<open>size\<close> are 64-bit unsigned, as the arithmetic of the source on them is.
\<close>

datatype section_type = SEC_TYPE_NONE | SEC_TYPE_CODE | SEC_TYPE_DATA

record Section =
  sec_name :: string
  sec_type :: section_type
  sec_vma :: "64 word"
  sec_size :: "64 word"
  sec_bytes :: "8 word list"

datatype binary_arch = ARCH_NONE | ARCH_X86

datatype binary_type = BIN_TYPE_AUTO | BIN_TYPE_ELF | BIN_TYPE_PE

record Binary =
  bin_type :: binary_type
  bin_arch :: binary_arch
  bin_arch_str :: string
  bin_bits :: nat
  bin_sections :: "Section list"

text \<open>The range \<open>[vma, vma + size)\<close> of a section, in unbounded arithmetic.\<close>

definition in_section :: "Section \<Rightarrow> 64 word \<Rightarrow> bool" where
  "in_section sec a \<longleftrightarrow> unat (sec_vma sec) \<le> unat a \<and> unat a < unat (sec_vma sec) + unat (sec_size sec)"

section \<open>The decoder's view of an instruction (capstone)\<close>

text \<open>
  The instruction decoder is a third-party library.  Its types are modelled as far as
  the source reads them: the instruction identifiers, groups and registers the source
  names are constructors of their own, all others fall under \<open>_OTHER\<close>.  An operand of
  the decoder is a tagged union (\<^verbatim>\<open>type\<close> selects the member of the union that is valid);
  the source reads a member only after testing the tag, so the union is a datatype.
\<close>

datatype x86_insn =
    X86_INS_INVALID
  | X86_INS_NOP | X86_INS_FNOP
  | X86_INS_MOV | X86_INS_XCHG | X86_INS_LEA
  | X86_INS_INT3 | X86_INS_UD2
  | X86_INS_CALL | X86_INS_LCALL
  | X86_INS_RET | X86_INS_RETF
  | X86_INS_JMP
  | X86_INS_JAE | X86_INS_JA | X86_INS_JBE | X86_INS_JB | X86_INS_JCXZ | X86_INS_JECXZ
  | X86_INS_JE | X86_INS_JGE | X86_INS_JG | X86_INS_JLE | X86_INS_JL | X86_INS_JNE
  | X86_INS_JNO | X86_INS_JNP | X86_INS_JNS | X86_INS_JO | X86_INS_JP | X86_INS_JRCXZ
  | X86_INS_JS
  | X86_INS_HLT | X86_INS_IN | X86_INS_INSB | X86_INS_INSW | X86_INS_INSD
  | X86_INS_OUT | X86_INS_OUTSB | X86_INS_OUTSW | X86_INS_OUTSD
  | X86_INS_RDMSR | X86_INS_WRMSR | X86_INS_RDPMC | X86_INS_RDTSC
  | X86_INS_LGDT | X86_INS_LLDT | X86_INS_LTR | X86_INS_LMSW | X86_INS_CLTS
  | X86_INS_INVD | X86_INS_INVLPG | X86_INS_WBINVD
  | X86_INS_OTHER nat

datatype cs_group =
    CS_GRP_INVALID | CS_GRP_JUMP | CS_GRP_CALL | CS_GRP_RET | CS_GRP_INT | CS_GRP_IRET
  | CS_GRP_OTHER nat

datatype x86_reg = X86_REG_INVALID | X86_REG_EAX | X86_REG_EIZ | X86_REG_OTHER nat

record x86_op_mem =
  mem_segment :: x86_reg
  mem_base :: x86_reg
  mem_index :: x86_reg
  mem_scale :: int
  mem_disp :: "64 word"

datatype x86_op_value =
    X86_OP_INVALID
  | X86_OP_REG x86_reg
  | X86_OP_IMM "64 word"
  | X86_OP_MEM x86_op_mem
  | X86_OP_FP "64 word"

record cs_x86_op =
  x86_op :: x86_op_value
  x86_op_size :: "8 word"

record cs_insn =
  cs_id :: x86_insn
  cs_address :: "64 word"
  cs_size :: "16 word"
  cs_mnemonic :: string
  cs_op_str :: string
  cs_groups :: "cs_group list"
  cs_addr_size :: "8 word"
  cs_operands :: "cs_x86_op list"

datatype cs_mode = CS_MODE_16 | CS_MODE_32 | CS_MODE_64

text \<open>
  The library as the source uses it: \<^verbatim>\<open>cs_open\<close> and \<^verbatim>\<open>cs_malloc\<close> can fail, and the
  decoder proper maps the bytes left and the current address to one instruction, or to
  nothing.
\<close>

record capstone =
  cs_open_ok :: "cs_mode \<Rightarrow> bool"
  cs_malloc_ok :: bool
  cs_decode :: "cs_mode \<Rightarrow> 8 word list \<Rightarrow> 64 word \<Rightarrow> cs_insn option"

text \<open>
  \<^verbatim>\<open>cs_disasm_iter(handle, &pc, &n, &pc_addr, insn)\<close>: on success the library stores the
  address of the instruction in it and advances \<^verbatim>\<open>pc\<close>, \<^verbatim>\<open>n\<close> and \<^verbatim>\<open>pc_addr\<close> by its size;
  on failure it returns false and leaves them.  \<open>code\<close> is the \<^verbatim>\<open>n\<close> bytes at \<^verbatim>\<open>pc\<close>.  The
  library never decodes an instruction longer than the bytes it was given: a decoder
  that would is a failed decode here.
\<close>

definition cs_disasm_iter ::
  "capstone \<Rightarrow> cs_mode \<Rightarrow> 8 word list \<Rightarrow> 64 word \<Rightarrow> (cs_insn \<times> 8 word list \<times> 64 word) option" where
  "cs_disasm_iter cs mode code address =
     (case cs_decode cs mode code address of
        None \<Rightarrow> None
      | Some insn \<Rightarrow>
          if unat (cs_size insn) \<le> length code
          then Some (insn\<lparr>cs_address := address\<rparr>,
                     drop (unat (cs_size insn)) code,
                     address + ucast (cs_size insn))
          else None)"

section \<open>Instructions and basic blocks\<close>

text \<open>
  Modelled from the spec: \<^verbatim>\<open>Operand\<close>, \<^verbatim>\<open>Instruction\<close> (insn.h) and \<^verbatim>\<open>BB\<close> (bb.h) are not
  part of the sources.  The spec gives an instruction a set of flag attributes
  \<open>{NOP, RET, JMP, COND, CFLOW, CALL, INDIRECT}\<close>, so \<^verbatim>\<open>flags |= F\<close> is the insertion of
  \<open>F\<close> into a set; a direct branch target that is absent until an immediate operand is
  found; and a block the flags \<open>invalid\<close>, \<open>privileged\<close>, \<open>padding\<close>, \<open>trap\<close> and \<open>alive\<close>.
\<close>

datatype operand_type = OP_TYPE_NONE | OP_TYPE_REG | OP_TYPE_IMM | OP_TYPE_MEM | OP_TYPE_FP

datatype operand_value =
    VALUE_NONE
  | VALUE_REG x86_reg
  | VALUE_IMM "64 word"
  | VALUE_FP "64 word"
  | VALUE_MEM x86_op_mem

record Operand =
  op_type :: operand_type
  op_size :: "8 word"
  op_x86_value :: operand_value

datatype ins_flag =
    INS_FLAG_CFLOW | INS_FLAG_COND | INS_FLAG_INDIRECT | INS_FLAG_JMP | INS_FLAG_CALL
  | INS_FLAG_RET | INS_FLAG_NOP

record Instruction =
  ins_start :: "64 word"
  ins_size :: "16 word"
  ins_addr_size :: "8 word"
  ins_mnem :: string
  ins_op_str :: string
  ins_flags :: "ins_flag set"
  ins_privileged :: bool
  ins_trap :: bool
  ins_target :: "64 word option"
  ins_operands :: "Operand list"

definition Instruction_new :: Instruction where
  "Instruction_new =
     \<lparr>ins_start = 0, ins_size = 0, ins_addr_size = 0, ins_mnem = [], ins_op_str = [],
      ins_flags = {}, ins_privileged = False, ins_trap = False, ins_target = None,
      ins_operands = []\<rparr>"

record BB =
  bb_start :: "64 word"
  bb_end :: "64 word"
  bb_section :: "Section option"
  bb_insns :: "Instruction list"
  bb_invalid :: bool
  bb_privileged :: bool
  bb_padding :: bool
  bb_trap :: bool
  bb_alive :: bool

record DisasmSection =
  dis_section :: Section
  dis_addrmap :: AddressMap
  dis_BBs :: "BB list"

section \<open>Initialisation\<close>

text \<open>
  The loop \<^verbatim>\<open>for(vma = sec->vma; vma < (sec->vma+sec->size); vma++)\<close> of \<^verbatim>\<open>init_disasm\<close>;
  \<open>bound\<close> is the bound \<^verbatim>\<open>sec->vma+sec->size\<close>, a 64-bit sum that can wrap around.
\<close>

function init_insert_loop :: "64 word \<Rightarrow> 64 word \<Rightarrow> AddressMap \<Rightarrow> AddressMap" where
  "init_insert_loop vma bound am =
     (if vma < bound then init_insert_loop (vma + 1) bound (AddressMap_insert am vma) else am)"
  by pat_completeness auto
termination
proof (relation "measure (\<lambda>(vma, bound, am). unat bound - unat vma)")
  show "wf (measure (\<lambda>(vma, bound, am). unat bound - unat vma))" by simp
next
  fix vma bound :: "64 word" and am :: AddressMap
  assume lt: "vma < bound"
  then have less: "unat vma < unat bound" by (simp add: word_less_nat_alt)
  moreover have "unat bound < 2 ^ LENGTH(64)" by (rule unsigned_less)
  ultimately have "unat vma + unat (1 :: 64 word) < 2 ^ LENGTH(64)" by simp
  then have "unat (vma + 1) = unat vma + 1" by (simp add: unat_add_lem [THEN iffD1])
  with less
  show "((vma + 1, bound, AddressMap_insert am vma), (vma, bound, am))
      \<in> measure (\<lambda>(vma, bound, am). unat bound - unat vma)"
    by simp
qed

definition init_DisasmSection :: "Section \<Rightarrow> DisasmSection" where
  "init_DisasmSection sec =
     \<lparr>dis_section = sec,
      dis_addrmap = init_insert_loop (sec_vma sec) (sec_vma sec + sec_size sec) AddressMap_empty,
      dis_BBs = []\<rparr>"

text \<open>\<open>only_code_sections\<close> is the option of that name; a section the loop skips
  (\<^verbatim>\<open>continue\<close>) gets no DisasmSection.\<close>

definition init_disasm :: "bool \<Rightarrow> Binary \<Rightarrow> int \<times> DisasmSection list" where
  "init_disasm only_code_sections bin =
     (0, map init_DisasmSection
           (filter (\<lambda>sec. \<not> (sec_type sec \<noteq> SEC_TYPE_CODE
                              \<and> \<not> (\<not> only_code_sections \<and> sec_type sec = SEC_TYPE_DATA)))
                   (bin_sections bin)))"


section \<open>Classification of one decoded instruction\<close>

text \<open>The predicates return 1 or 0 in the source; here they are booleans.\<close>

definition is_cs_nop_ins :: "cs_insn \<Rightarrow> bool" where
  "is_cs_nop_ins ins \<longleftrightarrow> cs_id ins \<in> {X86_INS_NOP, X86_INS_FNOP}"

text \<open>\<^verbatim>\<open>op_count == 2\<close>, both operands registers, and the same register.\<close>

fun same_reg_operands :: "cs_x86_op list \<Rightarrow> bool" where
  "same_reg_operands [a, b] =
     (case x86_op a of
        X86_OP_REG r0 \<Rightarrow> (case x86_op b of X86_OP_REG r1 \<Rightarrow> r0 = r1 | _ \<Rightarrow> False)
      | _ \<Rightarrow> False)"
| "same_reg_operands _ = False"

text \<open>\<^verbatim>\<open>op_count == 2\<close>, a register and a memory operand without segment, whose base is
  that register, whose index is \<open>idx\<close> and whose displacement is 0.\<close>

fun lea_reg_operands :: "x86_reg \<Rightarrow> cs_x86_op list \<Rightarrow> bool" where
  "lea_reg_operands idx [a, b] =
     (case x86_op a of
        X86_OP_REG r0 \<Rightarrow>
          (case x86_op b of
             X86_OP_MEM m \<Rightarrow>
               mem_segment m = X86_REG_INVALID \<and> mem_base m = r0 \<and> mem_index m = idx
               \<and> mem_disp m = 0
           | _ \<Rightarrow> False)
      | _ \<Rightarrow> False)"
| "lea_reg_operands idx _ = False"

definition is_cs_semantic_nop_ins :: "cs_insn \<Rightarrow> bool" where
  "is_cs_semantic_nop_ins ins =
     (if cs_id ins = X86_INS_MOV then same_reg_operands (cs_operands ins)
      else if cs_id ins = X86_INS_XCHG then same_reg_operands (cs_operands ins)
      else if cs_id ins = X86_INS_LEA then
        (if lea_reg_operands X86_REG_INVALID (cs_operands ins) then True
         else if lea_reg_operands X86_REG_EIZ (cs_operands ins) then True
         else False)
      else False)"

definition is_cs_trap_ins :: "cs_insn \<Rightarrow> bool" where
  "is_cs_trap_ins ins \<longleftrightarrow> cs_id ins \<in> {X86_INS_INT3, X86_INS_UD2}"

definition is_cs_cflow_group :: "cs_group \<Rightarrow> bool" where
  "is_cs_cflow_group g \<longleftrightarrow> g = CS_GRP_JUMP \<or> g = CS_GRP_CALL \<or> g = CS_GRP_RET \<or> g = CS_GRP_IRET"

definition is_cs_cflow_ins :: "cs_insn \<Rightarrow> bool" where
  "is_cs_cflow_ins ins \<longleftrightarrow> list_ex is_cs_cflow_group (cs_groups ins)"

definition is_cs_call_ins :: "cs_insn \<Rightarrow> bool" where
  "is_cs_call_ins ins \<longleftrightarrow> cs_id ins \<in> {X86_INS_CALL, X86_INS_LCALL}"

definition is_cs_ret_ins :: "cs_insn \<Rightarrow> bool" where
  "is_cs_ret_ins ins \<longleftrightarrow> cs_id ins \<in> {X86_INS_RET, X86_INS_RETF}"

definition is_cs_unconditional_jmp_ins :: "cs_insn \<Rightarrow> bool" where
  "is_cs_unconditional_jmp_ins ins \<longleftrightarrow> cs_id ins \<in> {X86_INS_JMP}"

definition is_cs_conditional_cflow_ins :: "cs_insn \<Rightarrow> bool" where
  "is_cs_conditional_cflow_ins ins \<longleftrightarrow>
     cs_id ins \<in> {X86_INS_JAE, X86_INS_JA, X86_INS_JBE, X86_INS_JB, X86_INS_JCXZ,
                  X86_INS_JECXZ, X86_INS_JE, X86_INS_JGE, X86_INS_JG, X86_INS_JLE,
                  X86_INS_JL, X86_INS_JNE, X86_INS_JNO, X86_INS_JNP, X86_INS_JNS,
                  X86_INS_JO, X86_INS_JP, X86_INS_JRCXZ, X86_INS_JS}"

definition is_cs_privileged_ins :: "cs_insn \<Rightarrow> bool" where
  "is_cs_privileged_ins ins \<longleftrightarrow>
     cs_id ins \<in> {X86_INS_HLT, X86_INS_IN, X86_INS_INSB, X86_INS_INSW, X86_INS_INSD,
                  X86_INS_OUT, X86_INS_OUTSB, X86_INS_OUTSW, X86_INS_OUTSD, X86_INS_RDMSR,
                  X86_INS_WRMSR, X86_INS_RDPMC, X86_INS_RDTSC, X86_INS_LGDT, X86_INS_LLDT,
                  X86_INS_LTR, X86_INS_LMSW, X86_INS_CLTS, X86_INS_INVD, X86_INS_INVLPG,
                  X86_INS_WBINVD}"

fun cs_to_nucleus_op_type :: "x86_op_value \<Rightarrow> operand_type" where
  "cs_to_nucleus_op_type (X86_OP_REG r) = OP_TYPE_REG"
| "cs_to_nucleus_op_type (X86_OP_IMM i) = OP_TYPE_IMM"
| "cs_to_nucleus_op_type (X86_OP_MEM m) = OP_TYPE_MEM"
| "cs_to_nucleus_op_type (X86_OP_FP f) = OP_TYPE_FP"
| "cs_to_nucleus_op_type X86_OP_INVALID = OP_TYPE_NONE"

section \<open>Decoding one basic block\<close>

text \<open>The local variable \<^verbatim>\<open>nop\<close> of \<^verbatim>\<open>nucleus_disasm_bb_x86\<close>: an architectural no-op, or a
  semantic no-op unless the binary is PE, or a trap if the binary is PE.\<close>

definition ins_nop :: "Binary \<Rightarrow> cs_insn \<Rightarrow> bool" where
  "ins_nop bin cs_ins \<longleftrightarrow>
     is_cs_nop_ins cs_ins
     \<or> (is_cs_semantic_nop_ins cs_ins \<and> bin_type bin \<noteq> BIN_TYPE_PE)
     \<or> (is_cs_trap_ins cs_ins \<and> bin_type bin = BIN_TYPE_PE)"

text \<open>One operand of the decoder as an \<^verbatim>\<open>Operand\<close>: the type tag, the size and the member
  of the union that the tag selects.\<close>

definition nucleus_operand :: "cs_x86_op \<Rightarrow> Operand" where
  "nucleus_operand cs_op =
     \<lparr>op_type = cs_to_nucleus_op_type (x86_op cs_op),
      op_size = x86_op_size cs_op,
      op_x86_value =
        (case x86_op cs_op of
           X86_OP_IMM i \<Rightarrow> VALUE_IMM i
         | X86_OP_REG r \<Rightarrow> VALUE_REG r
         | X86_OP_FP f \<Rightarrow> VALUE_FP f
         | X86_OP_MEM m \<Rightarrow> VALUE_MEM m
         | X86_OP_INVALID \<Rightarrow> VALUE_NONE)\<rparr>"

text \<open>The loop over the operands: each is appended, and a register or memory operand
  of a control-flow instruction marks the instruction INDIRECT.\<close>

fun operands_loop :: "bool \<Rightarrow> cs_x86_op list \<Rightarrow> Instruction \<Rightarrow> Instruction" where
  "operands_loop cflow [] ins = ins"
| "operands_loop cflow (cs_op # rest) ins =
     (let op = nucleus_operand cs_op;
          ins1 = ins\<lparr>ins_operands := ins_operands ins @ [op]\<rparr>;
          ins2 = (if (op_type op = OP_TYPE_REG \<or> op_type op = OP_TYPE_MEM) \<and> cflow
                  then ins1\<lparr>ins_flags := insert INS_FLAG_INDIRECT (ins_flags ins1)\<rparr>
                  else ins1)
      in operands_loop cflow rest ins2)"

text \<open>The two nested loops that record the branch target: for every control-flow group
  of the instruction, every immediate operand overwrites \<^verbatim>\<open>target\<close>.\<close>

fun target_operands_loop :: "cs_x86_op list \<Rightarrow> Instruction \<Rightarrow> Instruction" where
  "target_operands_loop [] ins = ins"
| "target_operands_loop (cs_op # rest) ins =
     target_operands_loop rest
       (case x86_op cs_op of X86_OP_IMM i \<Rightarrow> ins\<lparr>ins_target := Some i\<rparr> | _ \<Rightarrow> ins)"

fun target_groups_loop :: "cs_group list \<Rightarrow> cs_x86_op list \<Rightarrow> Instruction \<Rightarrow> Instruction" where
  "target_groups_loop [] ops ins = ins"
| "target_groups_loop (g # gs) ops ins =
     target_groups_loop gs ops
       (if is_cs_cflow_group g then target_operands_loop ops ins else ins)"

text \<open>The \<^verbatim>\<open>Instruction\<close> that one pass of the loop body appends.\<close>

definition new_Instruction :: "Binary \<Rightarrow> cs_insn \<Rightarrow> Instruction" where
  "new_Instruction bin cs_ins =
     (let trap = is_cs_trap_ins cs_ins;
          nop = ins_nop bin cs_ins;
          ret = is_cs_ret_ins cs_ins;
          jmp = (is_cs_unconditional_jmp_ins cs_ins \<or> is_cs_conditional_cflow_ins cs_ins);
          cond = is_cs_conditional_cflow_ins cs_ins;
          cflow = is_cs_cflow_ins cs_ins;
          call = is_cs_call_ins cs_ins;
          priv = is_cs_privileged_ins cs_ins;
          ins = Instruction_new
                  \<lparr>ins_start := cs_address cs_ins,
                   ins_size := cs_size cs_ins,
                   ins_addr_size := cs_addr_size cs_ins,
                   ins_mnem := cs_mnemonic cs_ins,
                   ins_op_str := cs_op_str cs_ins,
                   ins_privileged := priv,
                   ins_trap := trap\<rparr>;
          ins = (if nop then ins\<lparr>ins_flags := insert INS_FLAG_NOP (ins_flags ins)\<rparr> else ins);
          ins = (if ret then ins\<lparr>ins_flags := insert INS_FLAG_RET (ins_flags ins)\<rparr> else ins);
          ins = (if jmp then ins\<lparr>ins_flags := insert INS_FLAG_JMP (ins_flags ins)\<rparr> else ins);
          ins = (if cond then ins\<lparr>ins_flags := insert INS_FLAG_COND (ins_flags ins)\<rparr> else ins);
          ins = (if cflow then ins\<lparr>ins_flags := insert INS_FLAG_CFLOW (ins_flags ins)\<rparr> else ins);
          ins = (if call then ins\<lparr>ins_flags := insert INS_FLAG_CALL (ins_flags ins)\<rparr> else ins);
          ins = operands_loop cflow (cs_operands cs_ins) ins
      in target_groups_loop (cs_groups cs_ins) (cs_operands cs_ins) ins)"

text \<open>The block after the instruction is appended: \<^verbatim>\<open>end\<close> grows by its size, the flags
  of the block accumulate.\<close>

definition bb_append :: "Binary \<Rightarrow> cs_insn \<Rightarrow> BB \<Rightarrow> BB" where
  "bb_append bin cs_ins bb =
     bb\<lparr>bb_end := bb_end bb + ucast (cs_size cs_ins),
        bb_insns := bb_insns bb @ [new_Instruction bin cs_ins],
        bb_privileged := (if is_cs_privileged_ins cs_ins then True else bb_privileged bb),
        bb_padding := (if ins_nop bin cs_ins then True else bb_padding bb),
        bb_trap := (if is_cs_trap_ins cs_ins then True else bb_trap bb)\<rparr>"

text \<open>
  The \<^verbatim>\<open>while(cs_disasm_iter(...))\<close> loop.  The state is the bytes left (\<^verbatim>\<open>pc\<close>, \<^verbatim>\<open>n\<close>),
  \<^verbatim>\<open>pc_addr\<close>, \<^verbatim>\<open>ndisassembled\<close>, \<^verbatim>\<open>only_nop\<close> and the block; the result is
  \<^verbatim>\<open>ndisassembled\<close> and the block when the loop is left.  (\<^verbatim>\<open>ndisassembled\<close> is a C
  \<^verbatim>\<open>int\<close>, whose overflow after \<open>2^31 - 1\<close> instructions is undefined; it is an
  unbounded integer here.)
\<close>

function bb_loop ::
  "capstone \<Rightarrow> cs_mode \<Rightarrow> Binary \<Rightarrow> 8 word list \<Rightarrow> 64 word \<Rightarrow> int \<Rightarrow> bool \<Rightarrow> BB \<Rightarrow> int \<times> BB" where
  "bb_loop cs mode bin code pc_addr ndisassembled only_nop bb =
     (case cs_disasm_iter cs mode code pc_addr of
        None \<Rightarrow> (ndisassembled, bb)
      | Some (cs_ins, code', pc_addr') \<Rightarrow>
          if cs_id cs_ins = X86_INS_INVALID
          then (ndisassembled, bb\<lparr>bb_invalid := True, bb_end := bb_end bb + 1\<rparr>)
          else if cs_size cs_ins = 0 then (ndisassembled, bb)
          else
            let nop = ins_nop bin cs_ins;
                cflow = is_cs_cflow_ins cs_ins;
                only_nop = (if ndisassembled = 0 \<and> nop then True else only_nop)
            in if \<not> only_nop \<and> nop then (ndisassembled, bb)
               else if only_nop \<and> \<not> nop then (ndisassembled, bb)
               else if cflow then (ndisassembled + 1, bb_append bin cs_ins bb)
               else bb_loop cs mode bin code' pc_addr' (ndisassembled + 1) only_nop
                      (bb_append bin cs_ins bb))"
  by pat_completeness auto
termination
proof (relation "measure (\<lambda>(cs, mode, bin, code, pc_addr, nd, only_nop, bb). length code)")
  show "wf (measure (\<lambda>(cs, mode, bin, code, pc_addr, nd, only_nop, bb). length code))"
    by simp
next
  fix cs :: capstone and mode :: cs_mode and bin :: Binary and code code' :: "8 word list"
    and pc_addr pc_addr' :: "64 word" and ndisassembled :: int and only_nop xc xe :: bool
    and bb :: BB and cs_ins :: cs_insn and x2 :: "cs_insn \<times> 8 word list \<times> 64 word"
    and y :: "8 word list \<times> 64 word"
  assume iter: "cs_disasm_iter cs mode code pc_addr = Some x2"
    and x2: "(cs_ins, y) = x2" and y: "(code', pc_addr') = y"
    and size: "cs_size cs_ins \<noteq> 0"
  from size have "0 < unat (cs_size cs_ins)" by (simp add: unat_gt_0)
  moreover from iter x2 y have "unat (cs_size cs_ins) \<le> length code"
    and "code' = drop (unat (cs_size cs_ins)) code"
    by (auto simp: cs_disasm_iter_def split: option.splits if_splits)
  ultimately show "((cs, mode, bin, code', pc_addr', ndisassembled + 1, xe,
        bb_append bin cs_ins bb),
      (cs, mode, bin, code, pc_addr, ndisassembled, only_nop, bb))
      \<in> measure (\<lambda>(cs, mode, bin, code, pc_addr, nd, only_nop, bb). length code)"
    by simp
qed


text \<open>
  \<^verbatim>\<open>nucleus_disasm_bb_x86\<close> returns \<^verbatim>\<open>ndisassembled\<close>, or \<open>-1\<close> from the label \<^verbatim>\<open>fail\<close>, and
  leaves its result in the block.  Every jump to \<^verbatim>\<open>fail\<close> precedes the first store into
  the block.  The bytes to decode are the \<^verbatim>\<open>n = size - offset\<close> bytes at
  \<^verbatim>\<open>bytes + offset\<close>.
\<close>

definition nucleus_disasm_bb_x86 :: "capstone \<Rightarrow> Binary \<Rightarrow> DisasmSection \<Rightarrow> BB \<Rightarrow> int \<times> BB" where
  "nucleus_disasm_bb_x86 cs bin dis bb =
     (case (if bin_bits bin = 64 then Some CS_MODE_64
            else if bin_bits bin = 32 then Some CS_MODE_32
            else if bin_bits bin = 16 then Some CS_MODE_16
            else None) of
        None \<Rightarrow> (- 1, bb)
      | Some mode \<Rightarrow>
          if \<not> cs_open_ok cs mode then (- 1, bb)
          else if \<not> cs_malloc_ok cs then (- 1, bb)
          else
            let sec = dis_section dis;
                offset = bb_start bb - sec_vma sec
            in if bb_start bb < sec_vma sec \<or> offset \<ge> sec_size sec then (- 1, bb)
               else
                 let n = sec_size sec - offset;
                     code = take (unat n) (drop (unat offset) (sec_bytes sec));
                     bb1 = bb\<lparr>bb_end := bb_start bb, bb_section := Some sec\<rparr>;
                     (ndisassembled, bb2) = bb_loop cs mode bin code (bb_start bb) 0 False bb1;
                     bb3 = (if ndisassembled = 0
                            then bb2\<lparr>bb_invalid := True, bb_end := bb_end bb2 + 1\<rparr>
                            else bb2)
                 in (ndisassembled, bb3))"

definition nucleus_disasm_bb :: "capstone \<Rightarrow> Binary \<Rightarrow> DisasmSection \<Rightarrow> BB \<Rightarrow> int \<times> BB" where
  "nucleus_disasm_bb cs bin dis bb =
     (case bin_arch bin of
        ARCH_X86 \<Rightarrow> nucleus_disasm_bb_x86 cs bin dis bb
      | _ \<Rightarrow> (- 1, bb))"

section \<open>The exploration of one section\<close>

text \<open>
  Modelled from the spec: the mutation, scoring and selection policies (strategy.h)
  are not part of the sources.  \<open>bb_mutate\<close> returns the candidates for a parent, or
  for no parent; \<open>bb_score\<close> returns a score, of which the engine reads the sign only;
  \<open>bb_select\<close> returns an \<^verbatim>\<open>int\<close> and leaves the array of candidates with the \<open>alive\<close>
  flags it decided.
\<close>

record strategy =
  bb_mutate :: "DisasmSection \<Rightarrow> BB option \<Rightarrow> BB list"
  bb_score :: "DisasmSection \<Rightarrow> BB \<Rightarrow> real"
  bb_select :: "DisasmSection \<Rightarrow> BB list \<Rightarrow> int \<times> BB list"

text \<open>The first loop over the candidates: decode and score each; \<open>None\<close> is
  \<^verbatim>\<open>goto fail\<close>.\<close>

fun disasm_mutants ::
  "capstone \<Rightarrow> strategy \<Rightarrow> Binary \<Rightarrow> DisasmSection \<Rightarrow> BB list \<Rightarrow> BB list option" where
  "disasm_mutants cs st bin dis [] = Some []"
| "disasm_mutants cs st bin dis (m # ms) =
     (case nucleus_disasm_bb cs bin dis m of
        (ret, m') \<Rightarrow>
          if ret < 0 then None
          else if bb_score st dis m' < 0 then None
          else (case disasm_mutants cs st bin dis ms of
                  None \<Rightarrow> None
                | Some ms' \<Rightarrow> Some (m' # ms')))"

text \<open>\<^verbatim>\<open>for(auto &ins: mutants[i].insns)\<close>: flag every instruction start.\<close>

fun flag_insns :: "bool \<Rightarrow> Instruction list \<Rightarrow> AddressMap \<Rightarrow> fault + AddressMap" where
  "flag_insns ndebug [] am = Inr am"
| "flag_insns ndebug (ins # rest) am =
     (case AddressMap_add_addr_flag ndebug am (ins_start ins) DISASM_REGION_INS_START of
        Inl f \<Rightarrow> Inl f
      | Inr am' \<Rightarrow> flag_insns ndebug rest am')"

text \<open>\<^verbatim>\<open>for(vma = mutants[i].start; vma < mutants[i].end; vma++)\<close>: flag every byte.\<close>

function flag_code :: "bool \<Rightarrow> 64 word \<Rightarrow> 64 word \<Rightarrow> AddressMap \<Rightarrow> fault + AddressMap" where
  "flag_code ndebug vma bound am =
     (if vma < bound
      then (case AddressMap_add_addr_flag ndebug am vma DISASM_REGION_CODE of
              Inl f \<Rightarrow> Inl f
            | Inr am' \<Rightarrow> flag_code ndebug (vma + 1) bound am')
      else Inr am)"
  by pat_completeness auto
termination
proof (relation "measure (\<lambda>(ndebug, vma, bound, am). unat bound - unat vma)")
  show "wf (measure (\<lambda>(ndebug, vma, bound, am). unat bound - unat vma))" by simp
next
  fix ndebug :: bool and vma bound :: "64 word" and am am' :: AddressMap
  assume lt: "vma < bound"
  then have less: "unat vma < unat bound" by (simp add: word_less_nat_alt)
  moreover have "unat bound < 2 ^ LENGTH(64)" by (rule unsigned_less)
  ultimately have "unat vma + unat (1 :: 64 word) < 2 ^ LENGTH(64)" by simp
  then have "unat (vma + 1) = unat vma + 1" by (simp add: unat_add_lem [THEN iffD1])
  with less
  show "((ndebug, vma + 1, bound, am'), (ndebug, vma, bound, am))
      \<in> measure (\<lambda>(ndebug, vma, bound, am). unat bound - unat vma)"
    by simp
qed

text \<open>
  The body of the second loop for one candidate: a candidate that is alive is flagged,
  copied to the end of the list of blocks, and the copy is queued.  The queue holds the
  parents by value (\<open>None\<close> for the null parent): the blocks of the list are not written
  after they are queued.
\<close>

definition accept_mutant ::
  "bool \<Rightarrow> BB \<Rightarrow> DisasmSection \<times> BB option list \<Rightarrow> fault + (DisasmSection \<times> BB option list)" where
  "accept_mutant ndebug m s =
     (case s of (dis, Q) \<Rightarrow>
        if bb_alive m then
          (case AddressMap_add_addr_flag ndebug (dis_addrmap dis) (bb_start m) DISASM_REGION_BB_START of
             Inl f \<Rightarrow> Inl f
           | Inr am1 \<Rightarrow>
               (case flag_insns ndebug (bb_insns m) am1 of
                  Inl f \<Rightarrow> Inl f
                | Inr am2 \<Rightarrow>
                    (case flag_code ndebug (bb_start m) (bb_end m) am2 of
                       Inl f \<Rightarrow> Inl f
                     | Inr am3 \<Rightarrow>
                         Inr (dis\<lparr>dis_addrmap := am3, dis_BBs := dis_BBs dis @ [m]\<rparr>,
                              Q @ [Some m]))))
        else Inr s)"

text \<open>\<^verbatim>\<open>for(i = 0; i < n; i++)\<close> over the array of candidates, with \<^verbatim>\<open>unsigned i, n\<close>; a read
  of \<^verbatim>\<open>mutants[i]\<close> past the end of the array is undefined.\<close>

function accept_loop ::
  "bool \<Rightarrow> BB list \<Rightarrow> 32 word \<Rightarrow> 32 word \<Rightarrow> DisasmSection \<times> BB option list
     \<Rightarrow> fault + (DisasmSection \<times> BB option list)" where
  "accept_loop ndebug mutants i n s =
     (if i < n
      then if unat i < length mutants
           then (case accept_mutant ndebug (mutants ! unat i) s of
                   Inl f \<Rightarrow> Inl f
                 | Inr s' \<Rightarrow> accept_loop ndebug mutants (i + 1) n s')
           else Inl OutOfBounds
      else Inr s)"
  by pat_completeness auto
termination
proof (relation "measure (\<lambda>(ndebug, mutants, i, n, s). unat n - unat i)")
  show "wf (measure (\<lambda>(ndebug, mutants, i, n, s). unat n - unat i))" by simp
next
  fix ndebug :: bool and mutants :: "BB list" and i n :: "32 word"
    and s s' :: "DisasmSection \<times> BB option list"
  assume lt: "i < n"
  then have less: "unat i < unat n" by (simp add: word_less_nat_alt)
  moreover have "unat n < 2 ^ LENGTH(32)" by (rule unsigned_less)
  ultimately have "unat i + unat (1 :: 32 word) < 2 ^ LENGTH(32)" by simp
  then have "unat (i + 1) = unat i + 1" by (simp add: unat_add_lem [THEN iffD1])
  with less
  show "((ndebug, mutants, i + 1, n, s'), (ndebug, mutants, i, n, s))
      \<in> measure (\<lambda>(ndebug, mutants, i, n, s). unat n - unat i)"
    by simp
qed

text \<open>
  One pass of the body of \<^verbatim>\<open>while(!Q.empty())\<close>.  The result of \<open>bb_select\<close> is stored
  in the \<^verbatim>\<open>unsigned\<close> variable \<^verbatim>\<open>n\<close>, which is then compared with 0 and bounds the second
  loop.
\<close>

datatype 'a step = Next 'a | Goto_fail | Stopped fault

definition section_step ::
  "capstone \<Rightarrow> strategy \<Rightarrow> bool \<Rightarrow> Binary \<Rightarrow> DisasmSection \<times> BB option list
     \<Rightarrow> (DisasmSection \<times> BB option list) step" where
  "section_step cs st ndebug bin s =
     (case s of (dis, Q) \<Rightarrow>
        let mutants = bb_mutate st dis (hd Q);
            Q1 = tl Q
        in (case disasm_mutants cs st bin dis mutants of
              None \<Rightarrow> Goto_fail
            | Some mutants1 \<Rightarrow>
                (case bb_select st dis mutants1 of
                   (r, mutants2) \<Rightarrow>
                     (let n = (word_of_int r :: 32 word)
                      in if n < 0 then Goto_fail
                         else (case accept_loop ndebug mutants2 0 n (dis, Q1) of
                                 Inl f \<Rightarrow> Stopped f
                               | Inr s' \<Rightarrow> Next s')))))"

text \<open>
  The worklist loop.  It need not end (that is up to the policies), so the result is
  an option: \<open>None\<close> when the loop runs forever, \<open>Some (Inr (ret, dis))\<close> when the
  function returns \<open>ret\<close>, \<open>Some (Inl f)\<close> when the program stops with a fault.
\<close>

partial_function (option) section_loop ::
  "capstone \<Rightarrow> strategy \<Rightarrow> bool \<Rightarrow> Binary \<Rightarrow> DisasmSection \<times> BB option list
     \<Rightarrow> (fault + int \<times> DisasmSection) option" where
  "section_loop cs st ndebug bin s =
     (if snd s = [] then Some (Inr (0, fst s))
      else (case section_step cs st ndebug bin s of
              Next s' \<Rightarrow> section_loop cs st ndebug bin s'
            | Goto_fail \<Rightarrow> Some (Inr (- 1, fst s))
            | Stopped f \<Rightarrow> Some (Inl f)))"

definition nucleus_disasm_section ::
  "capstone \<Rightarrow> strategy \<Rightarrow> bool \<Rightarrow> bool \<Rightarrow> Binary \<Rightarrow> DisasmSection
     \<Rightarrow> (fault + int \<times> DisasmSection) option" where
  "nucleus_disasm_section cs st ndebug only_code_sections bin dis =
     (if sec_type (dis_section dis) \<noteq> SEC_TYPE_CODE \<and> only_code_sections
      then Some (Inr (0, dis))
      else section_loop cs st ndebug bin (dis, [None]))"

section \<open>Auxiliary definitions for the proofs\<close>

text \<open>A list without duplicates together with the map from its elements to their
  positions: the shape of \<open>unmapped\<close> and \<open>unmapped_lookup\<close>.\<close>

definition index_of :: "'a list \<Rightarrow> ('a \<rightharpoonup> nat) \<Rightarrow> bool" where
  "index_of u l \<longleftrightarrow> distinct u \<and> (\<forall>a i. l a = Some i \<longleftrightarrow> i < length u \<and> u ! i = a)"

text \<open>The calls the exploration engine makes on an AddressMap after initialisation:
  \<^verbatim>\<open>add_addr_flag\<close> with one of the three flags of an accepted block.\<close>

definition engine_call :: "AddressMap_call \<Rightarrow> bool" where
  "engine_call c =
     (case c of
        Call_add_addr_flag a f \<Rightarrow>
          f \<in> {DISASM_REGION_BB_START, DISASM_REGION_INS_START, DISASM_REGION_CODE}
      | _ \<Rightarrow> False)"

text \<open>The partition of the tracked addresses: the working set is consistent, no
  address is both mapped and in the working set, and a mapped address has a flag.\<close>

definition partitioned :: "AddressMap \<Rightarrow> bool" where
  "partitioned am \<longleftrightarrow>
     unmapped_consistent am \<and>
     (\<forall>a. addrmap am a \<noteq> None \<longrightarrow> unmapped_lookup am a = None) \<and>
     (\<forall>a t. addrmap am a = Some t \<longrightarrow> t \<noteq> DISASM_REGION_UNMAPPED)"

section \<open>Concrete inputs\<close>

text \<open>The section of the spec's scenario: the three bytes \<open>90 90 C3\<close> at \<open>0x1000\<close>.\<close>

definition section_1000 :: Section where
  "section_1000 =
     \<lparr>sec_name = ''.text'', sec_type = SEC_TYPE_CODE, sec_vma = 0x1000, sec_size = 3,
      sec_bytes = [0x90, 0x90, 0xC3]\<rparr>"

text \<open>A section of one byte at the last address of the 64-bit address space.\<close>

definition section_top :: Section where
  "section_top =
     \<lparr>sec_name = ''.text'', sec_type = SEC_TYPE_CODE, sec_vma = 0xFFFFFFFFFFFFFFFF, sec_size = 1,
      sec_bytes = [0x90]\<rparr>"

definition calls_1000 :: "AddressMap_call list" where
  "calls_1000 =
     [Call_add_addr_flag 0x1002 DISASM_REGION_BB_START,
      Call_add_addr_flag 0x1002 DISASM_REGION_INS_START,
      Call_add_addr_flag 0x1002 DISASM_REGION_CODE]"

definition calls_insert3 :: "AddressMap_call list" where
  "calls_insert3 = [Call_insert 10, Call_insert 11, Call_insert 12]"

text \<open>Two binaries that differ in their format only.\<close>

definition binary_elf :: Binary where
  "binary_elf =
     \<lparr>bin_type = BIN_TYPE_ELF, bin_arch = ARCH_X86, bin_arch_str = ''x86'', bin_bits = 64,
      bin_sections = [section_1000]\<rparr>"

definition binary_pe :: Binary where
  "binary_pe =
     \<lparr>bin_type = BIN_TYPE_PE, bin_arch = ARCH_X86, bin_arch_str = ''x86'', bin_bits = 64,
      bin_sections = [section_1000]\<rparr>"

text \<open>\<^verbatim>\<open>lea eax,[eax+0]\<close> and \<^verbatim>\<open>int3\<close> as the decoder reports them.\<close>

definition lea_eax_eax :: cs_insn where
  "lea_eax_eax =
     \<lparr>cs_id = X86_INS_LEA, cs_address = 0x1000, cs_size = 3, cs_mnemonic = ''lea'',
      cs_op_str = ''eax, [eax]'', cs_groups = [], cs_addr_size = 4,
      cs_operands =
        [\<lparr>x86_op = X86_OP_REG X86_REG_EAX, x86_op_size = 4\<rparr>,
         \<lparr>x86_op = X86_OP_MEM \<lparr>mem_segment = X86_REG_INVALID, mem_base = X86_REG_EAX,
                                  mem_index = X86_REG_INVALID, mem_scale = 1, mem_disp = 0\<rparr>,
          x86_op_size = 4\<rparr>]\<rparr>"

definition int3 :: cs_insn where
  "int3 =
     \<lparr>cs_id = X86_INS_INT3, cs_address = 0x1000, cs_size = 1, cs_mnemonic = ''int3'',
      cs_op_str = [], cs_groups = [CS_GRP_INT], cs_addr_size = 4, cs_operands = []\<rparr>"

text \<open>The number of bytes of a list of appended instructions.\<close>

definition total_size :: "Instruction list \<Rightarrow> nat" where
  "total_size new = sum_list (map (\<lambda>i. unat (ins_size i)) new)"

text \<open>Whether the first of a list of instructions carries the NOP flag.\<close>

definition first_nop :: "Instruction list \<Rightarrow> bool" where
  "first_nop new = (case new of [] \<Rightarrow> False | i # _ \<Rightarrow> INS_FLAG_NOP \<in> ins_flags i)"

text \<open>
  The ways in which the loop of the block decoder is left without an instruction that
  ends the block and without marking the block invalid, seen from the position where
  decoding stopped: the decoder reports nothing (no bytes are left, or the bytes are no
  instruction), or an instruction of size 0, or an instruction on the other side of
  the no-op boundary.
\<close>

definition stops_at :: "capstone \<Rightarrow> cs_mode \<Rightarrow> Binary \<Rightarrow> bool \<Rightarrow> 8 word list \<Rightarrow> 64 word \<Rightarrow> bool" where
  "stops_at cs mode bin only_nop code a =
     (case cs_disasm_iter cs mode code a of
        None \<Rightarrow> True
      | Some (cs_ins, code', a') \<Rightarrow>
          cs_id cs_ins \<noteq> X86_INS_INVALID \<and> (cs_size cs_ins = 0 \<or> ins_nop bin cs_ins \<noteq> only_nop))"

text \<open>The mode that \<^verbatim>\<open>nucleus_disasm_bb_x86\<close> selects from the width of the binary.\<close>

definition mode_of_bits :: "nat \<Rightarrow> cs_mode option" where
  "mode_of_bits bits =
     (if bits = 64 then Some CS_MODE_64
      else if bits = 32 then Some CS_MODE_32
      else if bits = 16 then Some CS_MODE_16
      else None)"

text \<open>The bytes of a section from an address of the section to its end: \<^verbatim>\<open>pc\<close> and \<^verbatim>\<open>n\<close>
  of \<^verbatim>\<open>nucleus_disasm_bb_x86\<close> for a block that starts at the address.\<close>

definition code_at :: "Section \<Rightarrow> 64 word \<Rightarrow> 8 word list" where
  "code_at sec a =
     take (unat (sec_size sec - (a - sec_vma sec))) (drop (unat (a - sec_vma sec)) (sec_bytes sec))"

text \<open>What the loop has done when it is left, in terms of the instructions \<open>new\<close> it has
  appended: their flags, their sizes, where the block ends and why decoding stopped.\<close>

definition loop_post ::
  "capstone \<Rightarrow> cs_mode \<Rightarrow> Binary \<Rightarrow> bool \<Rightarrow> 8 word list \<Rightarrow> 64 word \<Rightarrow> BB \<Rightarrow> Instruction list \<Rightarrow> BB \<Rightarrow> bool" where
  "loop_post cs mode bin on code a bb new bb' \<longleftrightarrow>
     bb_insns bb' = bb_insns bb @ new \<and>
     bb_start bb' = bb_start bb \<and>
     (\<forall>i \<in> set new. ins_size i \<noteq> 0 \<and> (INS_FLAG_NOP \<in> ins_flags i) = on) \<and>
     total_size new \<le> length code \<and>
     (\<forall>i \<in> set (butlast new). INS_FLAG_CFLOW \<notin> ins_flags i) \<and>
     ((new \<noteq> [] \<and> INS_FLAG_CFLOW \<in> ins_flags (last new) \<and>
       bb_end bb' = bb_end bb + of_nat (total_size new) \<and> bb_invalid bb' = bb_invalid bb)
      \<or> (bb_invalid bb' \<and> bb_end bb' = bb_end bb + of_nat (total_size new) + 1 \<and>
          (\<exists>ci c' a'. cs_disasm_iter cs mode (drop (total_size new) code)
                        (a + of_nat (total_size new)) = Some (ci, c', a') \<and>
                      cs_id ci = X86_INS_INVALID))
      \<or> (stops_at cs mode bin on (drop (total_size new) code) (a + of_nat (total_size new)) \<and>
          bb_end bb' = bb_end bb + of_nat (total_size new) \<and> bb_invalid bb' = bb_invalid bb))"

text \<open>A decoder that never reports an instruction with the identifier
  \<^verbatim>\<open>X86_INS_INVALID\<close>: an opcode that is no instruction is then reported as a failed
  decode, and the first test in the body of the loop never holds.\<close>

definition never_invalid :: "capstone \<Rightarrow> bool" where
  "never_invalid cs \<longleftrightarrow>
     (\<forall>mode code a ci. cs_decode cs mode code a = Some ci \<longrightarrow> cs_id ci \<noteq> X86_INS_INVALID)"

text \<open>
  A small decoder: \<open>90\<close> is \<^verbatim>\<open>nop\<close>, \<open>C3\<close> is \<^verbatim>\<open>ret\<close>, every other byte is no instruction
  (as \<open>06\<close> is none in 64-bit mode).
\<close>

definition toy_nop :: "64 word \<Rightarrow> cs_insn" where
  "toy_nop a =
     \<lparr>cs_id = X86_INS_NOP, cs_address = a, cs_size = 1, cs_mnemonic = ''nop'', cs_op_str = [],
      cs_groups = [], cs_addr_size = 8, cs_operands = []\<rparr>"

definition toy_ret :: "64 word \<Rightarrow> cs_insn" where
  "toy_ret a =
     \<lparr>cs_id = X86_INS_RET, cs_address = a, cs_size = 1, cs_mnemonic = ''ret'', cs_op_str = [],
      cs_groups = [CS_GRP_RET], cs_addr_size = 8, cs_operands = []\<rparr>"

definition capstone_toy :: capstone where
  "capstone_toy =
     \<lparr>cs_open_ok = (\<lambda>mode. True), cs_malloc_ok = True,
      cs_decode = (\<lambda>mode code a.
        case code of
          [] \<Rightarrow> None
        | b # rest \<Rightarrow>
            if b = 0x90 then Some (toy_nop a)
            else if b = 0xC3 then Some (toy_ret a)
            else None)\<rparr>"

text \<open>A decoder that reports every byte as an instruction of one byte with the
  identifier \<^verbatim>\<open>X86_INS_INVALID\<close>: the case of the first test in the loop body.\<close>

definition toy_invalid :: "64 word \<Rightarrow> cs_insn" where
  "toy_invalid a =
     \<lparr>cs_id = X86_INS_INVALID, cs_address = a, cs_size = 1, cs_mnemonic = ''.byte'',
      cs_op_str = [], cs_groups = [], cs_addr_size = 8, cs_operands = []\<rparr>"

definition capstone_invalid :: capstone where
  "capstone_invalid =
     \<lparr>cs_open_ok = (\<lambda>mode. True), cs_malloc_ok = True,
      cs_decode = (\<lambda>mode code a. case code of [] \<Rightarrow> None | b # rest \<Rightarrow> Some (toy_invalid a))\<rparr>"

text \<open>A section in which a byte that is no instruction follows a \<^verbatim>\<open>nop\<close>.\<close>

definition section_2000 :: Section where
  "section_2000 =
     \<lparr>sec_name = ''.text'', sec_type = SEC_TYPE_CODE, sec_vma = 0x2000, sec_size = 3,
      sec_bytes = [0x90, 0x06, 0xC3]\<rparr>"

text \<open>A candidate block as the mutation policy hands it over: a start address only.\<close>

definition BB_at :: "64 word \<Rightarrow> BB" where
  "BB_at a =
     \<lparr>bb_start = a, bb_end = 0, bb_section = None, bb_insns = [], bb_invalid = False,
      bb_privileged = False, bb_padding = False, bb_trap = False, bb_alive = False\<rparr>"

definition dis_1000 :: DisasmSection where
  "dis_1000 = init_DisasmSection section_1000"

definition dis_2000 :: DisasmSection where
  "dis_2000 = init_DisasmSection section_2000"

definition dis_top :: DisasmSection where
  "dis_top = init_DisasmSection section_top"

text \<open>An address is flagged when it is mapped and the bits of the flag are set in its
  mask.\<close>

definition flagged :: "AddressMap \<Rightarrow> 64 word \<Rightarrow> 32 word \<Rightarrow> bool" where
  "flagged am a f \<longleftrightarrow> (case addrmap am a of None \<Rightarrow> False | Some t \<Rightarrow> t AND f = f)"

text \<open>
  A candidate is recorded between two states of the AddressMap: its start is flagged
  BB_START, the start of each of its instructions INS_START, and each byte of
  \<open>[start, end)\<close> CODE.  Without \<^verbatim>\<open>NDEBUG\<close> a call of \<^verbatim>\<open>add_addr_flag\<close> on an address that
  the map does not track stops the program; with \<^verbatim>\<open>NDEBUG\<close> it does nothing, so the
  flags are then promised for the addresses that the map tracks.
\<close>

definition recorded :: "bool \<Rightarrow> AddressMap \<Rightarrow> AddressMap \<Rightarrow> BB \<Rightarrow> bool" where
  "recorded ndebug am am' m \<longleftrightarrow>
     ((ndebug \<longrightarrow> AddressMap_contains am (bb_start m)) \<longrightarrow>
        flagged am' (bb_start m) DISASM_REGION_BB_START) \<and>
     (\<forall>ins \<in> set (bb_insns m).
        (ndebug \<longrightarrow> AddressMap_contains am (ins_start ins)) \<longrightarrow>
          flagged am' (ins_start ins) DISASM_REGION_INS_START) \<and>
     (\<forall>a. bb_start m \<le> a \<and> a < bb_end m \<and> (ndebug \<longrightarrow> AddressMap_contains am a) \<longrightarrow>
          flagged am' a DISASM_REGION_CODE)"

text \<open>Four policies.  All of them score every block 1.  The first proposes a block
  outside the section.  The second proposes the two blocks of the scenario, keeps the
  last candidate only and returns the number of survivors.  The third proposes the
  block at \<open>0x1002\<close>, keeps every candidate and returns their number.  The fourth
  proposes the block at \<open>0x1000\<close>, keeps none and returns \<open>-1\<close>.\<close>

definition strategy_outside :: strategy where
  "strategy_outside =
     \<lparr>bb_mutate = (\<lambda>dis parent. [BB_at 0x2000]),
      bb_score = (\<lambda>dis bb. 1),
      bb_select = (\<lambda>dis ms. (int (length ms), map (\<lambda>m. m\<lparr>bb_alive := True\<rparr>) ms))\<rparr>"

definition strategy_last :: strategy where
  "strategy_last =
     \<lparr>bb_mutate = (\<lambda>dis parent. [BB_at 0x1000, BB_at 0x1002]),
      bb_score = (\<lambda>dis bb. 1),
      bb_select = (\<lambda>dis ms.
        (1, map (\<lambda>m. m\<lparr>bb_alive := False\<rparr>) (butlast ms) @ [(last ms)\<lparr>bb_alive := True\<rparr>]))\<rparr>"

definition strategy_all :: strategy where
  "strategy_all =
     \<lparr>bb_mutate = (\<lambda>dis parent. [BB_at 0x1002]),
      bb_score = (\<lambda>dis bb. 1),
      bb_select = (\<lambda>dis ms. (int (length ms), map (\<lambda>m. m\<lparr>bb_alive := True\<rparr>) ms))\<rparr>"

definition strategy_minus1 :: strategy where
  "strategy_minus1 =
     \<lparr>bb_mutate = (\<lambda>dis parent. [BB_at 0x1000]),
      bb_score = (\<lambda>dis bb. 1),
      bb_select = (\<lambda>dis ms. (- 1, ms))\<rparr>"

text \<open>From one state of the AddressMap to a later one of the same pass, tracked
  addresses stay tracked and flags stay set.\<close>

definition grows :: "AddressMap \<Rightarrow> AddressMap \<Rightarrow> bool" where
  "grows am am' \<longleftrightarrow>
     (\<forall>b. AddressMap_contains am b \<longrightarrow> AddressMap_contains am' b) \<and>
     (\<forall>b g. flagged am b g \<longrightarrow> flagged am' b g)"

section \<open>The unmapped working set\<close>


lemma lookup_in_bounds:
  "unmapped_consistent am \<Longrightarrow> unmapped_lookup am a = Some i \<Longrightarrow> i < length (unmapped am) \<and> unmapped am ! i = a"
  by (simp add: unmapped_consistent_def)

lemma lookup_iff_set:
  "unmapped_consistent am \<Longrightarrow> unmapped_lookup am a \<noteq> None \<longleftrightarrow> a \<in> set (unmapped am)"
  unfolding unmapped_consistent_def by (metis in_set_conv_nth not_Some_eq)

lemma insert_consistent:
  assumes "unmapped_consistent am"
  shows "unmapped_consistent (AddressMap_insert am a)"
proof (cases "AddressMap_contains am a")
  case True
  then show ?thesis using assms by (simp add: AddressMap_insert_def)
next
  case False
  then have none: "unmapped_lookup am a = None" by (simp add: AddressMap_contains_def)
  then have notin: "a \<notin> set (unmapped am)" using lookup_iff_set [OF assms, of a] by simp
  show ?thesis
    using assms False notin none
    unfolding unmapped_consistent_def AddressMap_insert_def
    by (auto simp: nth_append less_Suc_eq)
qed

lemma index_of_drop_last:
  assumes "index_of (xs @ [z]) l"
  shows "index_of xs (l(z := None))"
  using assms unfolding index_of_def
  by (auto simp: nth_append split: if_splits)

lemma index_of_swap_remove:
  assumes "index_of (xs @ [z]) l" and "i < length xs"
  shows "index_of (xs[i := z]) ((l(z \<mapsto> i))(xs ! i := None))"
proof -
  from assms have d: "distinct xs" "z \<notin> set xs"
    and L: "\<And>a j. l a = Some j \<longleftrightarrow> j < Suc (length xs) \<and> (xs @ [z]) ! j = a"
    by (auto simp: index_of_def)
  have zi: "z \<noteq> xs ! i" using d assms(2) by (metis nth_mem)
  have dist: "distinct (xs[i := z])"
    using d assms(2) by (simp add: distinct_list_update)
  have "((l(z \<mapsto> i))(xs ! i := None)) a = Some j \<longleftrightarrow> j < length xs \<and> xs[i := z] ! j = a" for a j
  proof (cases "a = xs ! i")
    case True
    then show ?thesis using d assms(2) zi
      by (auto simp: nth_list_update nth_eq_iff_index_eq)
  next
    case False
    show ?thesis
    proof (cases "a = z")
      case True
      then show ?thesis using d assms(2) zi False
        by (auto simp: nth_list_update)
    next
      case az: False
      then show ?thesis using False d assms(2) L [of a j]
        by (auto simp: nth_list_update nth_append less_Suc_eq)
    qed
  qed
  with dist show ?thesis by (simp add: index_of_def)
qed

lemma consistent_index_of: "unmapped_consistent am \<longleftrightarrow> index_of (unmapped am) (unmapped_lookup am)"
  by (simp add: unmapped_consistent_def index_of_def)

lemma erase_unmapped_consistent_aux:
  assumes "unmapped_consistent am"
  shows "unmapped_consistent (AddressMap_erase_unmapped am a)"
proof (cases "unmapped_lookup am a")
  case None
  then show ?thesis using assms by (simp add: AddressMap_erase_unmapped_def)
next
  case (Some i)
  from assms Some have i: "i < length (unmapped am)" "unmapped am ! i = a"
    by (auto dest: lookup_in_bounds)
  then obtain xs z where u: "unmapped am = xs @ [z]"
    by (metis append_butlast_last_id list.size(3) not_less_zero)
  have io: "index_of (xs @ [z]) (unmapped_lookup am)"
    using assms u by (simp add: consistent_index_of)
  show ?thesis
  proof (cases "i < length xs")
    case True
    then have a: "a = xs ! i" using i u by (simp add: nth_append)
    have upd: "(xs @ [z])[i := last (xs @ [z])] = xs[i := z] @ [z]"
      using True by (simp add: list_update_append1)
    have "AddressMap_erase_unmapped am a =
        am\<lparr>unmapped := xs[i := z], unmapped_lookup := ((unmapped_lookup am)(z \<mapsto> i))(xs ! i := None)\<rparr>"
      using Some True u a upd
      by (auto simp add: AddressMap_erase_unmapped_def AddressMap_unmapped_count_def Let_def)
    then show ?thesis
      using index_of_swap_remove [OF io True] by (simp add: consistent_index_of)
  next
    case False
    then have il: "i = length xs" and a: "a = z" using i u by (auto simp: nth_append)
    have lz: "unmapped_lookup am z = Some (length xs)"
      using Some il a by simp
    have "(unmapped_lookup am)(z \<mapsto> length xs) = unmapped_lookup am"
      using lz by (auto simp: fun_upd_idem_iff)
    then have "AddressMap_erase_unmapped am a =
        am\<lparr>unmapped := xs, unmapped_lookup := (unmapped_lookup am)(z := None)\<rparr>"
      using Some u a il
      by (simp add: AddressMap_erase_unmapped_def AddressMap_unmapped_count_def Let_def)
    then show ?thesis
      using index_of_drop_last [OF io] by (simp add: consistent_index_of)
  qed
qed


lemma erase_unmapped_addrmap [simp]:
  "addrmap (AddressMap_erase_unmapped am a) = addrmap am"
  by (simp add: AddressMap_erase_unmapped_def Let_def split: option.splits)

lemma erase_unmapped_lookup_self [simp]:
  "unmapped_lookup (AddressMap_erase_unmapped am a) a = None"
  by (simp add: AddressMap_erase_unmapped_def Let_def split: option.splits)

lemma erase_unmapped_set:
  assumes "unmapped_consistent am"
  shows "set (unmapped (AddressMap_erase_unmapped am a)) = set (unmapped am) - {a}"
proof (cases "unmapped_lookup am a")
  case None
  then have "a \<notin> set (unmapped am)" using lookup_iff_set [OF assms, of a] by simp
  then show ?thesis using None by (simp add: AddressMap_erase_unmapped_def)
next
  case (Some i)
  from assms Some have i: "i < length (unmapped am)" "unmapped am ! i = a"
    by (auto dest: lookup_in_bounds)
  then obtain xs z where u: "unmapped am = xs @ [z]"
    by (metis append_butlast_last_id list.size(3) not_less_zero)
  have d: "distinct xs" "z \<notin> set xs"
    using assms u by (auto simp: unmapped_consistent_def)
  show ?thesis
  proof (cases "i < length xs")
    case True
    then have a: "a = xs ! i" using i u by (simp add: nth_append)
    have upd: "(xs @ [z])[i := last (xs @ [z])] = xs[i := z] @ [z]"
      using True by (simp add: list_update_append1)
    have "unmapped (AddressMap_erase_unmapped am a) = xs[i := z]"
      using Some True u a upd
      by (auto simp add: AddressMap_erase_unmapped_def AddressMap_unmapped_count_def Let_def)
    moreover have "z \<noteq> a" using d a True by (metis nth_mem)
    ultimately show ?thesis
      using d True a u by (auto simp: set_update_distinct)
  next
    case False
    then have il: "i = length xs" using i u by simp
    then have "a = z" using i u by (auto simp: nth_append)
    moreover have "unmapped (AddressMap_erase_unmapped am a) = xs"
      using Some u il
      by (simp add: AddressMap_erase_unmapped_def AddressMap_unmapped_count_def Let_def)
    ultimately show ?thesis using d u by auto
  qed
qed

lemma erase_unmapped_lookup_dom:
  assumes "unmapped_consistent am"
  shows "unmapped_lookup (AddressMap_erase_unmapped am a) b \<noteq> None \<longleftrightarrow> b \<noteq> a \<and> unmapped_lookup am b \<noteq> None"
  using lookup_iff_set [OF erase_unmapped_consistent_aux [OF assms], of a b]
    lookup_iff_set [OF assms, of b] erase_unmapped_set [OF assms, of a]
  by auto

lemma get_addr_type_consistent:
  "unmapped_consistent am \<Longrightarrow> AddressMap_get_addr_type ndebug am a = Inr (t, am') \<Longrightarrow> unmapped_consistent am'"
  by (auto simp: AddressMap_get_addr_type_def unmapped_consistent_def split: if_splits option.splits)

lemma set_addr_type_consistent:
  "unmapped_consistent am \<Longrightarrow> AddressMap_set_addr_type ndebug am a t = Inr am' \<Longrightarrow> unmapped_consistent am'"
  using erase_unmapped_consistent_aux [of am a]
  by (auto simp: AddressMap_set_addr_type_def unmapped_consistent_def Let_def split: if_splits)

lemma add_addr_flag_consistent:
  "unmapped_consistent am \<Longrightarrow> AddressMap_add_addr_flag ndebug am a f = Inr am' \<Longrightarrow> unmapped_consistent am'"
  using erase_unmapped_consistent_aux [of am a]
  by (auto simp: AddressMap_add_addr_flag_def unmapped_consistent_def Let_def split: if_splits)

lemma erase_consistent:
  "unmapped_consistent am \<Longrightarrow> unmapped_consistent (AddressMap_erase am a)"
  using erase_unmapped_consistent_aux [of "am\<lparr>addrmap := (addrmap am)(a := None)\<rparr>" a]
    erase_unmapped_consistent_aux [of am a]
  by (auto simp: AddressMap_erase_def unmapped_consistent_def Let_def)

lemma apply_consistent:
  "unmapped_consistent am \<Longrightarrow> AddressMap_apply ndebug am c = Inr am' \<Longrightarrow> unmapped_consistent am'"
  by (cases c)
     (auto simp: insert_consistent erase_unmapped_consistent_aux erase_consistent
        dest: set_addr_type_consistent add_addr_flag_consistent get_addr_type_consistent
        split: sum.splits prod.splits)

lemma calls_consistent:
  "unmapped_consistent am \<Longrightarrow> AddressMap_calls ndebug am cs = Inr am' \<Longrightarrow> unmapped_consistent am'"
proof (induction cs arbitrary: am)
  case Nil
  then show ?case by simp
next
  case (Cons c cs)
  then show ?case by (auto split: sum.splits dest: apply_consistent)
qed

lemma empty_consistent: "unmapped_consistent AddressMap_empty"
  by (simp add: unmapped_consistent_def AddressMap_empty_def)

text \<open>
  C9.  Take any AddressMap that its member functions have built from the empty map,
  and any address.  After \<^verbatim>\<open>erase_unmapped(addr)\<close> the address is neither in
  \<open>unmapped_lookup\<close> nor in the \<open>unmapped\<close> vector, and every other address that was in
  the vector is still in it, with an index in \<open>unmapped_lookup\<close> at which
  \<^verbatim>\<open>get_unmapped\<close> returns it.
\<close>

theorem erase_unmapped_erases:
  assumes "AddressMap_calls ndebug AddressMap_empty cs = Inr am"
  shows "unmapped_lookup (AddressMap_erase_unmapped am addr) addr = None \<and>
         addr \<notin> set (unmapped (AddressMap_erase_unmapped am addr)) \<and>
         (\<forall>b \<in> set (unmapped am). b \<noteq> addr \<longrightarrow>
            b \<in> set (unmapped (AddressMap_erase_unmapped am addr)) \<and>
            (\<exists>j. unmapped_lookup (AddressMap_erase_unmapped am addr) b = Some j \<and>
                 AddressMap_get_unmapped (AddressMap_erase_unmapped am addr) j = Inr b))"
proof -
  let ?am' = "AddressMap_erase_unmapped am addr"
  have c: "unmapped_consistent am"
    using calls_consistent [OF empty_consistent assms] .
  then have c': "unmapped_consistent ?am'" by (rule erase_unmapped_consistent_aux)
  have s: "set (unmapped ?am') = set (unmapped am) - {addr}" using c by (rule erase_unmapped_set)
  have "\<exists>j. unmapped_lookup ?am' b = Some j \<and> AddressMap_get_unmapped ?am' j = Inr b"
    if "b \<in> set (unmapped am)" "b \<noteq> addr" for b
  proof -
    from that s have "b \<in> set (unmapped ?am')" by simp
    then obtain j where "unmapped_lookup ?am' b = Some j"
      using lookup_iff_set [OF c', of b] by auto
    moreover from this have "j < length (unmapped ?am') \<and> unmapped ?am' ! j = b"
      using lookup_in_bounds [OF c'] by blast
    ultimately show ?thesis by (auto simp: AddressMap_get_unmapped_def)
  qed
  then show ?thesis using s by auto
qed


theorem erase_unmapped_erases_witness:
  "AddressMap_calls False AddressMap_empty calls_insert3 =
     Inr (projr (AddressMap_calls False AddressMap_empty calls_insert3)) \<and>
   unmapped (projr (AddressMap_calls False AddressMap_empty calls_insert3)) = [10, 11, 12] \<and>
   unmapped_lookup
     (AddressMap_erase_unmapped (projr (AddressMap_calls False AddressMap_empty calls_insert3)) 10)
     10 = None \<and>
   10 \<notin> set (unmapped
     (AddressMap_erase_unmapped (projr (AddressMap_calls False AddressMap_empty calls_insert3)) 10)) \<and>
   12 \<in> set (unmapped
     (AddressMap_erase_unmapped (projr (AddressMap_calls False AddressMap_empty calls_insert3)) 10)) \<and>
   (\<exists>j. unmapped_lookup
          (AddressMap_erase_unmapped (projr (AddressMap_calls False AddressMap_empty calls_insert3)) 10)
          12 = Some j \<and>
        AddressMap_get_unmapped
          (AddressMap_erase_unmapped (projr (AddressMap_calls False AddressMap_empty calls_insert3)) 10)
          j = Inr 12)"
proof -
  let ?am = "projr (AddressMap_calls False AddressMap_empty calls_insert3)"
  have run: "AddressMap_calls False AddressMap_empty calls_insert3 = Inr ?am"
    by (simp add: calls_insert3_def)
  have u: "unmapped ?am = [10, 11, 12]"
    by (simp add: calls_insert3_def AddressMap_insert_def AddressMap_contains_def
        AddressMap_empty_def)
  then have "(12 :: 64 word) \<in> set (unmapped ?am)" by simp
  with erase_unmapped_erases [OF run, of 10] run u show ?thesis by simp
qed

section \<open>The partition of the address map\<close>


lemma partitioned_empty: "partitioned AddressMap_empty"
  by (simp add: partitioned_def empty_consistent) (simp add: AddressMap_empty_def)

lemma partitioned_insert:
  assumes "partitioned am"
  shows "partitioned (AddressMap_insert am a)"
proof -
  have "unmapped_consistent (AddressMap_insert am a)"
    using assms by (simp add: partitioned_def insert_consistent)
  moreover have "addrmap (AddressMap_insert am a) = addrmap am"
    by (simp add: AddressMap_insert_def)
  moreover have "unmapped_lookup (AddressMap_insert am a) b = None"
    if "addrmap am b \<noteq> None" for b
    using that assms by (auto simp: AddressMap_insert_def AddressMap_contains_def partitioned_def)
  ultimately show ?thesis using assms by (simp add: partitioned_def)
qed

lemma contains_insert:
  "AddressMap_contains (AddressMap_insert am a) b \<longleftrightarrow> AddressMap_contains am b \<or> b = a"
  by (auto simp: AddressMap_insert_def AddressMap_contains_def)

lemma partitioned_add_addr_flag:
  assumes "partitioned am" and "f \<noteq> DISASM_REGION_UNMAPPED"
    and "AddressMap_add_addr_flag ndebug am a f = Inr am'"
  shows "partitioned am'"
proof (cases "AddressMap_contains am a")
  case False
  then show ?thesis using assms by (auto simp: AddressMap_add_addr_flag_def split: if_splits)
next
  case True
  let ?e = "AddressMap_erase_unmapped am a"
  from assms(1) have c: "unmapped_consistent am" by (simp add: partitioned_def)
  have am': "am' = ?e\<lparr>addrmap := (addrmap am)(a \<mapsto> (case addrmap am a of None \<Rightarrow> 0 | Some t \<Rightarrow> t) OR f)\<rparr>"
    using assms(2,3) True by (simp add: AddressMap_add_addr_flag_def Let_def)
  have "unmapped_consistent am'"
    using erase_unmapped_consistent_aux [OF c, of a] by (simp add: am' unmapped_consistent_def)
  moreover have "unmapped_lookup am' b = None" if "addrmap am' b \<noteq> None" for b
  proof (cases "b = a")
    case True
    then show ?thesis by (simp add: am')
  next
    case False
    with that have "addrmap am b \<noteq> None" by (simp add: am')
    then have "unmapped_lookup am b = None" using assms(1) by (simp add: partitioned_def)
    then show ?thesis using erase_unmapped_lookup_dom [OF c, of a b] by (simp add: am')
  qed
  moreover have "t \<noteq> DISASM_REGION_UNMAPPED" if "addrmap am' b = Some t" for b t
  proof (cases "b = a")
    case True
    with that have "t = (case addrmap am a of None \<Rightarrow> 0 | Some t \<Rightarrow> t) OR f" by (simp add: am')
    then show ?thesis using assms(2) by (simp add: DISASM_REGION_UNMAPPED_def or_eq_0_iff)
  next
    case False
    with that have "addrmap am b = Some t" by (simp add: am')
    then show ?thesis using assms(1) by (simp add: partitioned_def)
  qed
  ultimately show ?thesis by (simp add: partitioned_def)
qed

lemma contains_add_addr_flag:
  assumes "AddressMap_add_addr_flag ndebug am a f = Inr am'" and "AddressMap_contains am b"
  shows "AddressMap_contains am' b"
proof (cases "AddressMap_contains am a")
  case False
  then show ?thesis using assms by (auto simp: AddressMap_add_addr_flag_def split: if_splits)
next
  case True
  have keep: "unmapped_lookup (AddressMap_erase_unmapped am a) b \<noteq> None"
    if "unmapped_lookup am b \<noteq> None" "b \<noteq> a"
    using that by (auto simp: AddressMap_erase_unmapped_def Let_def split: option.splits)
  show ?thesis
    using assms True keep
    by (cases "b = a")
       (auto simp: AddressMap_add_addr_flag_def AddressMap_contains_def Let_def split: if_splits)
qed

lemma engine_call_preserves:
  assumes "engine_call c" and "AddressMap_apply ndebug am c = Inr am'"
  shows "(partitioned am \<longrightarrow> partitioned am') \<and> (AddressMap_contains am b \<longrightarrow> AddressMap_contains am' b)"
proof -
  from assms(1) obtain a f where c: "c = Call_add_addr_flag a f"
    and f: "f \<in> {DISASM_REGION_BB_START, DISASM_REGION_INS_START, DISASM_REGION_CODE}"
    by (cases c) (auto simp: engine_call_def)
  from f have "f \<noteq> DISASM_REGION_UNMAPPED"
    by (auto simp: DISASM_REGION_UNMAPPED_def DISASM_REGION_BB_START_def
        DISASM_REGION_INS_START_def DISASM_REGION_CODE_def)
  then show ?thesis
    using assms(2) c partitioned_add_addr_flag contains_add_addr_flag by auto
qed

lemma engine_calls_preserve:
  assumes "list_all engine_call cs" and "AddressMap_calls ndebug am cs = Inr am'"
  shows "(partitioned am \<longrightarrow> partitioned am') \<and> (AddressMap_contains am b \<longrightarrow> AddressMap_contains am' b)"
  using assms
proof (induction cs arbitrary: am)
  case Nil
  then show ?case by simp
next
  case (Cons c cs)
  then obtain am1 where 1: "AddressMap_apply ndebug am c = Inr am1"
    and 2: "AddressMap_calls ndebug am1 cs = Inr am'"
    by (auto split: sum.splits)
  from Cons.prems have "engine_call c" "list_all engine_call cs" by simp_all
  then show ?case
    using engine_call_preserves [OF _ 1, of b] Cons.IH [OF _ 2] by blast
qed

lemma init_insert_loop_spec:
  "partitioned am \<Longrightarrow>
   partitioned (init_insert_loop vma bound am) \<and>
   (\<forall>b. AddressMap_contains (init_insert_loop vma bound am) b \<longleftrightarrow>
        AddressMap_contains am b \<or> (vma \<le> b \<and> b < bound))"
proof (induction vma bound am rule: init_insert_loop.induct)
  case (1 vma bound am)
  show ?case
  proof (cases "vma < bound")
    case False
    then show ?thesis using "1.prems" by auto
  next
    case True
    then have less: "unat vma < unat bound" by (simp add: word_less_nat_alt)
    moreover have "unat bound < 2 ^ LENGTH(64)" by (rule unsigned_less)
    ultimately have "unat vma + unat (1 :: 64 word) < 2 ^ LENGTH(64)" by simp
    then have suc: "unat (vma + 1) = unat vma + 1" by (simp add: unat_add_lem [THEN iffD1])
    have range: "(vma \<le> b \<and> b < bound) \<longleftrightarrow> b = vma \<or> (vma + 1 \<le> b \<and> b < bound)" for b
      using suc less by (auto simp: word_le_nat_alt word_less_nat_alt word_unat_eq_iff)
    have IH: "partitioned (init_insert_loop (vma + 1) bound (AddressMap_insert am vma)) \<and>
       (\<forall>b. AddressMap_contains (init_insert_loop (vma + 1) bound (AddressMap_insert am vma)) b \<longleftrightarrow>
          AddressMap_contains (AddressMap_insert am vma) b \<or> (vma + 1 \<le> b \<and> b < bound))"
      using "1.IH" [OF True] "1.prems" by (simp add: partitioned_insert)
    have unf: "init_insert_loop vma bound am = init_insert_loop (vma + 1) bound (AddressMap_insert am vma)"
      using True by simp
    show ?thesis
      unfolding unf using IH range by (auto simp: contains_insert)
  qed
qed


lemma init_DisasmSection_addrmap:
  assumes "unat (sec_vma sec) + unat (sec_size sec) < 2 ^ 64"
  shows "partitioned (dis_addrmap (init_DisasmSection sec)) \<and>
         (\<forall>a. AddressMap_contains (dis_addrmap (init_DisasmSection sec)) a \<longleftrightarrow> in_section sec a)"
proof -
  from assms have "unat (sec_vma sec) + unat (sec_size sec) < 2 ^ LENGTH(64)" by simp
  then have sum: "unat (sec_vma sec + sec_size sec) = unat (sec_vma sec) + unat (sec_size sec)"
    by (simp add: unat_add_lem [THEN iffD1])
  have "\<not> AddressMap_contains AddressMap_empty a" for a
    by (simp add: AddressMap_contains_def AddressMap_empty_def)
  then show ?thesis
    using init_insert_loop_spec [OF partitioned_empty, of "sec_vma sec" "sec_vma sec + sec_size sec"] sum
    by (simp add: init_DisasmSection_def in_section_def word_le_nat_alt word_less_nat_alt)
qed

text \<open>
  C2, amended.  Let the range of the section not wrap around the 64-bit address space
  (\<open>vma + size < 2^64\<close>).  After \<^verbatim>\<open>init_disasm\<close> and any sequence of the engine's
  \<^verbatim>\<open>add_addr_flag\<close> calls, at every point of which the program has not stopped, every
  address of the range is tracked (\<^verbatim>\<open>contains\<close>), and it is either mapped in \<open>addrmap\<close>, with
  a value other than UNMAPPED, or in the unmapped working set (index and vector alike),
  never both.
\<close>

theorem address_map_partition:
  assumes "unat (sec_vma sec) + unat (sec_size sec) < 2 ^ 64"
    and "list_all engine_call calls"
    and "AddressMap_calls ndebug (dis_addrmap (init_DisasmSection sec)) calls = Inr am"
    and "in_section sec a"
  shows "AddressMap_contains am a \<and>
         (addrmap am a = None) = (unmapped_lookup am a \<noteq> None) \<and>
         (unmapped_lookup am a \<noteq> None) = (a \<in> set (unmapped am)) \<and>
         (\<forall>t. addrmap am a = Some t \<longrightarrow> t \<noteq> DISASM_REGION_UNMAPPED)"
proof -
  let ?am0 = "dis_addrmap (init_DisasmSection sec)"
  from init_DisasmSection_addrmap [OF assms(1)] assms(4)
  have "partitioned ?am0" and "AddressMap_contains ?am0 a" by simp_all
  with engine_calls_preserve [OF assms(2,3), of a]
  have p: "partitioned am" and c: "AddressMap_contains am a" by simp_all
  from p have "unmapped_consistent am" by (simp add: partitioned_def)
  then have "(unmapped_lookup am a \<noteq> None) = (a \<in> set (unmapped am))" by (rule lookup_iff_set)
  with p c show ?thesis by (auto simp: partitioned_def AddressMap_contains_def)
qed

lemma calls_1000_run:
  "\<exists>am. AddressMap_calls False (dis_addrmap (init_DisasmSection section_1000)) calls_1000 = Inr am"
  by (simp add: init_DisasmSection_def section_1000_def AddressMap_insert_def AddressMap_empty_def
      calls_1000_def AddressMap_add_addr_flag_def AddressMap_contains_def
      AddressMap_erase_unmapped_def AddressMap_unmapped_count_def Let_def
      DISASM_REGION_UNMAPPED_def DISASM_REGION_BB_START_def DISASM_REGION_INS_START_def
      DISASM_REGION_CODE_def)

theorem address_map_partition_witness:
  "unat (sec_vma section_1000) + unat (sec_size section_1000) < 2 ^ 64 \<and>
   list_all engine_call calls_1000 \<and>
   in_section section_1000 0x1002 \<and>
   in_section section_1000 0x1000 \<and>
   AddressMap_contains
     (projr (AddressMap_calls False (dis_addrmap (init_DisasmSection section_1000)) calls_1000)) 0x1002 \<and>
   AddressMap_contains
     (projr (AddressMap_calls False (dis_addrmap (init_DisasmSection section_1000)) calls_1000)) 0x1000"
proof -
  obtain am where run:
    "AddressMap_calls False (dis_addrmap (init_DisasmSection section_1000)) calls_1000 = Inr am"
    using calls_1000_run by blast
  have nowrap: "unat (sec_vma section_1000) + unat (sec_size section_1000) < 2 ^ 64"
    by (simp add: section_1000_def)
  have calls: "list_all engine_call calls_1000"
    by (simp add: calls_1000_def engine_call_def)
  have in2: "in_section section_1000 0x1002" and in0: "in_section section_1000 0x1000"
    by (simp_all add: in_section_def section_1000_def)
  from address_map_partition [OF nowrap calls run in2] address_map_partition [OF nowrap calls run in0]
  show ?thesis using nowrap calls in2 in0 by (simp add: run)
qed

text \<open>
  C2 as stated fails for a section whose range reaches the end of the address space:
  the bound \<^verbatim>\<open>sec->vma+sec->size\<close> wraps to 0, the loop of \<^verbatim>\<open>init_disasm\<close> inserts nothing,
  and \<^verbatim>\<open>contains\<close> is false for the address of the section.
\<close>

theorem address_map_partition_wraps:
  "in_section section_top 0xFFFFFFFFFFFFFFFF \<and>
   list_all engine_call [] \<and>
   AddressMap_calls False (dis_addrmap (init_DisasmSection section_top)) [] =
     Inr (dis_addrmap (init_DisasmSection section_top)) \<and>
   \<not> AddressMap_contains (dis_addrmap (init_DisasmSection section_top)) 0xFFFFFFFFFFFFFFFF"
  by (simp add: in_section_def section_top_def init_DisasmSection_def
      AddressMap_contains_def AddressMap_empty_def)


section \<open>No-op classification\<close>

lemma same_reg_operands_regs:
  "same_reg_operands [\<lparr>x86_op = X86_OP_REG r, x86_op_size = s0\<rparr>,
                      \<lparr>x86_op = X86_OP_REG r, x86_op_size = s1\<rparr>]"
  by simp

lemma lea_reg_operands_zero:
  "lea_reg_operands idx
     [\<lparr>x86_op = X86_OP_REG r, x86_op_size = s0\<rparr>,
      \<lparr>x86_op = X86_OP_MEM \<lparr>mem_segment = X86_REG_INVALID, mem_base = r, mem_index = idx,
                               mem_scale = sc, mem_disp = 0\<rparr>,
       x86_op_size = s1\<rparr>]"
  by simp

text \<open>
  C8.  The semantic no-ops of the source (\<^verbatim>\<open>mov reg,reg\<close>, \<^verbatim>\<open>xchg reg,reg\<close>,
  \<^verbatim>\<open>lea reg,[reg+0]\<close> and \<^verbatim>\<open>lea reg,[reg+eiz*scale+0]\<close>) count as no-ops exactly when the
  binary is not PE; the traps \<^verbatim>\<open>int3\<close> and \<^verbatim>\<open>ud2\<close> count as no-ops exactly when it is PE.
\<close>

theorem nop_by_binary_type:
  "((cs_id ins = X86_INS_MOV \<or> cs_id ins = X86_INS_XCHG) \<and>
    cs_operands ins = [\<lparr>x86_op = X86_OP_REG r, x86_op_size = s0\<rparr>,
                       \<lparr>x86_op = X86_OP_REG r, x86_op_size = s1\<rparr>]
      \<longrightarrow> ins_nop bin ins = (bin_type bin \<noteq> BIN_TYPE_PE)) \<and>
   (cs_id ins = X86_INS_LEA \<and> (idx = X86_REG_INVALID \<or> idx = X86_REG_EIZ) \<and>
    cs_operands ins =
      [\<lparr>x86_op = X86_OP_REG r, x86_op_size = s0\<rparr>,
       \<lparr>x86_op = X86_OP_MEM \<lparr>mem_segment = X86_REG_INVALID, mem_base = r, mem_index = idx,
                                mem_scale = sc, mem_disp = 0\<rparr>,
        x86_op_size = s1\<rparr>]
      \<longrightarrow> ins_nop bin ins = (bin_type bin \<noteq> BIN_TYPE_PE)) \<and>
   (cs_id ins = X86_INS_INT3 \<or> cs_id ins = X86_INS_UD2
      \<longrightarrow> ins_nop bin ins = (bin_type bin = BIN_TYPE_PE))"
proof (intro conjI impI)
  assume "(cs_id ins = X86_INS_MOV \<or> cs_id ins = X86_INS_XCHG) \<and>
    cs_operands ins = [\<lparr>x86_op = X86_OP_REG r, x86_op_size = s0\<rparr>,
                       \<lparr>x86_op = X86_OP_REG r, x86_op_size = s1\<rparr>]"
  then show "ins_nop bin ins = (bin_type bin \<noteq> BIN_TYPE_PE)"
    by (auto simp: ins_nop_def is_cs_nop_ins_def is_cs_semantic_nop_ins_def is_cs_trap_ins_def)
next
  assume "cs_id ins = X86_INS_LEA \<and> (idx = X86_REG_INVALID \<or> idx = X86_REG_EIZ) \<and>
    cs_operands ins =
      [\<lparr>x86_op = X86_OP_REG r, x86_op_size = s0\<rparr>,
       \<lparr>x86_op = X86_OP_MEM \<lparr>mem_segment = X86_REG_INVALID, mem_base = r, mem_index = idx,
                                mem_scale = sc, mem_disp = 0\<rparr>,
        x86_op_size = s1\<rparr>]"
  then show "ins_nop bin ins = (bin_type bin \<noteq> BIN_TYPE_PE)"
    by (auto simp: ins_nop_def is_cs_nop_ins_def is_cs_semantic_nop_ins_def is_cs_trap_ins_def)
next
  assume "cs_id ins = X86_INS_INT3 \<or> cs_id ins = X86_INS_UD2"
  then show "ins_nop bin ins = (bin_type bin = BIN_TYPE_PE)"
    by (auto simp: ins_nop_def is_cs_nop_ins_def is_cs_semantic_nop_ins_def is_cs_trap_ins_def)
qed

theorem nop_by_binary_type_witness:
  "ins_nop binary_elf lea_eax_eax \<and> \<not> ins_nop binary_pe lea_eax_eax \<and>
   ins_nop binary_pe int3 \<and> \<not> ins_nop binary_elf int3"
proof -
  have lea: "cs_id lea_eax_eax = X86_INS_LEA \<and>
      (X86_REG_INVALID = X86_REG_INVALID \<or> X86_REG_INVALID = X86_REG_EIZ) \<and>
      cs_operands lea_eax_eax =
        [\<lparr>x86_op = X86_OP_REG X86_REG_EAX, x86_op_size = 4\<rparr>,
         \<lparr>x86_op = X86_OP_MEM \<lparr>mem_segment = X86_REG_INVALID, mem_base = X86_REG_EAX,
                                  mem_index = X86_REG_INVALID, mem_scale = 1, mem_disp = 0\<rparr>,
          x86_op_size = 4\<rparr>]"
    by (simp add: lea_eax_eax_def)
  have trap: "cs_id int3 = X86_INS_INT3 \<or> cs_id int3 = X86_INS_UD2"
    by (simp add: int3_def)
  have "ins_nop b lea_eax_eax = (bin_type b \<noteq> BIN_TYPE_PE)" for b
    using nop_by_binary_type [of lea_eax_eax X86_REG_EAX 4 4 b X86_REG_INVALID 1] lea by blast
  moreover have "ins_nop b int3 = (bin_type b = BIN_TYPE_PE)" for b
    using nop_by_binary_type [of int3 X86_REG_EAX 4 4 b X86_REG_INVALID 1] trap by blast
  ultimately show ?thesis by (simp add: binary_elf_def binary_pe_def)
qed

section \<open>Decoding one basic block: the loop\<close>

declare bb_loop.simps [simp del]

lemma operands_loop_fields:
  "ins_start (operands_loop cflow ops ins) = ins_start ins \<and>
   ins_size (operands_loop cflow ops ins) = ins_size ins \<and>
   (F \<noteq> INS_FLAG_INDIRECT \<longrightarrow>
      (F \<in> ins_flags (operands_loop cflow ops ins)) = (F \<in> ins_flags ins))"
  by (induction ops arbitrary: ins) (auto simp: Let_def)

lemma target_operands_loop_fields:
  "ins_start (target_operands_loop ops ins) = ins_start ins \<and>
   ins_size (target_operands_loop ops ins) = ins_size ins \<and>
   ins_flags (target_operands_loop ops ins) = ins_flags ins"
  by (induction ops arbitrary: ins) (auto split: x86_op_value.splits)

lemma target_groups_loop_fields:
  "ins_start (target_groups_loop gs ops ins) = ins_start ins \<and>
   ins_size (target_groups_loop gs ops ins) = ins_size ins \<and>
   ins_flags (target_groups_loop gs ops ins) = ins_flags ins"
  by (induction gs arbitrary: ins) (auto simp: target_operands_loop_fields)

lemma new_Instruction_start [simp]: "ins_start (new_Instruction bin ci) = cs_address ci"
  by (simp add: new_Instruction_def Let_def target_groups_loop_fields operands_loop_fields)

lemma new_Instruction_size [simp]: "ins_size (new_Instruction bin ci) = cs_size ci"
  by (simp add: new_Instruction_def Let_def target_groups_loop_fields operands_loop_fields)

lemma new_Instruction_nop [simp]:
  "INS_FLAG_NOP \<in> ins_flags (new_Instruction bin ci) \<longleftrightarrow> ins_nop bin ci"
  by (simp add: new_Instruction_def Let_def target_groups_loop_fields operands_loop_fields
      Instruction_new_def)

lemma new_Instruction_cflow [simp]:
  "INS_FLAG_CFLOW \<in> ins_flags (new_Instruction bin ci) \<longleftrightarrow> is_cs_cflow_ins ci"
  by (simp add: new_Instruction_def Let_def target_groups_loop_fields operands_loop_fields
      Instruction_new_def)

lemma cs_disasm_iter_Some:
  assumes "cs_disasm_iter cs mode code a = Some (ci, code', a')"
  shows "unat (cs_size ci) \<le> length code" and "code' = drop (unat (cs_size ci)) code"
    and "a' = a + ucast (cs_size ci)" and "cs_address ci = a"
  using assms by (auto simp: cs_disasm_iter_def split: option.splits if_splits)

text \<open>The exits of the loop, one by one.\<close>

lemma bb_loop_None:
  "cs_disasm_iter cs mode code a = None \<Longrightarrow> bb_loop cs mode bin code a nd on bb = (nd, bb)"
  by (simp add: bb_loop.simps)

lemma bb_loop_invalid:
  "cs_disasm_iter cs mode code a = Some (ci, code', a') \<Longrightarrow> cs_id ci = X86_INS_INVALID \<Longrightarrow>
   bb_loop cs mode bin code a nd on bb = (nd, bb\<lparr>bb_invalid := True, bb_end := bb_end bb + 1\<rparr>)"
  by (simp add: bb_loop.simps)

lemma bb_loop_zero:
  "cs_disasm_iter cs mode code a = Some (ci, code', a') \<Longrightarrow> cs_id ci \<noteq> X86_INS_INVALID \<Longrightarrow>
   cs_size ci = 0 \<Longrightarrow> bb_loop cs mode bin code a nd on bb = (nd, bb)"
  by (simp add: bb_loop.simps)

lemma bb_loop_boundary:
  "cs_disasm_iter cs mode code a = Some (ci, code', a') \<Longrightarrow> cs_id ci \<noteq> X86_INS_INVALID \<Longrightarrow>
   cs_size ci \<noteq> 0 \<Longrightarrow> ins_nop bin ci \<noteq> (if nd = 0 \<and> ins_nop bin ci then True else on) \<Longrightarrow>
   bb_loop cs mode bin code a nd on bb = (nd, bb)"
  by (auto simp add: bb_loop.simps Let_def)

lemma bb_loop_cflow:
  "cs_disasm_iter cs mode code a = Some (ci, code', a') \<Longrightarrow> cs_id ci \<noteq> X86_INS_INVALID \<Longrightarrow>
   cs_size ci \<noteq> 0 \<Longrightarrow> ins_nop bin ci = (if nd = 0 \<and> ins_nop bin ci then True else on) \<Longrightarrow>
   is_cs_cflow_ins ci \<Longrightarrow>
   bb_loop cs mode bin code a nd on bb = (nd + 1, bb_append bin ci bb)"
  by (auto simp add: bb_loop.simps Let_def)

lemma bb_loop_continue:
  "cs_disasm_iter cs mode code a = Some (ci, code', a') \<Longrightarrow> cs_id ci \<noteq> X86_INS_INVALID \<Longrightarrow>
   cs_size ci \<noteq> 0 \<Longrightarrow> ins_nop bin ci = (if nd = 0 \<and> ins_nop bin ci then True else on) \<Longrightarrow>
   \<not> is_cs_cflow_ins ci \<Longrightarrow>
   bb_loop cs mode bin code a nd on bb =
     bb_loop cs mode bin code' a' (nd + 1) (ins_nop bin ci) (bb_append bin ci bb)"
  by (auto simp add: bb_loop.simps [of cs mode bin code a] Let_def)

lemma bb_append_fields [simp]:
  "bb_insns (bb_append bin ci bb) = bb_insns bb @ [new_Instruction bin ci]"
  "bb_start (bb_append bin ci bb) = bb_start bb"
  "bb_end (bb_append bin ci bb) = bb_end bb + ucast (cs_size ci)"
  "bb_invalid (bb_append bin ci bb) = bb_invalid bb"
  by (simp_all add: bb_append_def)

lemma loop_post_Cons:
  assumes iter: "cs_disasm_iter cs mode code a = Some (ci, code', a')"
    and size: "cs_size ci \<noteq> 0" and nop: "ins_nop bin ci = on" and ncf: "\<not> is_cs_cflow_ins ci"
    and post: "loop_post cs mode bin on code' a' (bb_append bin ci bb) new bb'"
  shows "loop_post cs mode bin on code a bb (new_Instruction bin ci # new) bb'"
proof -
  let ?i = "new_Instruction bin ci" and ?s = "unat (cs_size ci)"
  note it = cs_disasm_iter_Some [OF iter]
  have tot: "total_size (?i # new) = ?s + total_size new" by (simp add: total_size_def)
  from post have "total_size new \<le> length code'" by (simp add: loop_post_def)
  then have le: "total_size (?i # new) \<le> length code"
    using it(1,2) by (simp add: tot)
  have dr: "drop (total_size new) code' = drop (total_size (?i # new)) code"
    by (simp add: it(2) tot add.commute)
  have ad: "a' + of_nat (total_size new) = a + of_nat (total_size (?i # new))"
    by (simp add: it(3) tot)
  have en: "bb_end (bb_append bin ci bb) + of_nat (total_size new)
      = bb_end bb + of_nat (total_size (?i # new))"
    by (simp add: tot)
  have bl: "\<forall>i \<in> set (butlast (?i # new)). INS_FLAG_CFLOW \<notin> ins_flags i"
    using post ncf by (auto simp: loop_post_def)
  have la: "new \<noteq> [] \<Longrightarrow> last (?i # new) = last new" by simp
  from post have
    "(new \<noteq> [] \<and> INS_FLAG_CFLOW \<in> ins_flags (last (?i # new)) \<and>
       bb_end bb' = bb_end bb + of_nat (total_size (?i # new)) \<and> bb_invalid bb' = bb_invalid bb)
      \<or> (bb_invalid bb' \<and> bb_end bb' = bb_end bb + of_nat (total_size (?i # new)) + 1 \<and>
          (\<exists>ci c' a'. cs_disasm_iter cs mode (drop (total_size (?i # new)) code)
                        (a + of_nat (total_size (?i # new))) = Some (ci, c', a') \<and>
                      cs_id ci = X86_INS_INVALID))
      \<or> (stops_at cs mode bin on (drop (total_size (?i # new)) code)
            (a + of_nat (total_size (?i # new))) \<and>
          bb_end bb' = bb_end bb + of_nat (total_size (?i # new)) \<and> bb_invalid bb' = bb_invalid bb)"
    unfolding loop_post_def dr ad en [symmetric] using la by auto
  moreover have "bb_insns bb' = bb_insns bb @ ?i # new" "bb_start bb' = bb_start bb"
    using post by (simp_all add: loop_post_def)
  moreover have "\<forall>i \<in> set (?i # new). ins_size i \<noteq> 0 \<and> (INS_FLAG_NOP \<in> ins_flags i) = on"
    using post size nop by (simp add: loop_post_def)
  ultimately show ?thesis
    unfolding loop_post_def using le bl by blast
qed

lemma bb_loop_post:
  "0 < nd \<Longrightarrow> bb_loop cs mode bin code a nd on bb = (r, bb') \<Longrightarrow>
   \<exists>new. r = nd + int (length new) \<and> loop_post cs mode bin on code a bb new bb'"
proof (induction cs mode bin code a nd on bb rule: bb_loop.induct)
  case (1 cs mode bin code a nd on bb)
  show ?case
  proof (cases "cs_disasm_iter cs mode code a")
    case None
    with "1.prems" have "r = nd" "bb' = bb" by (simp_all add: bb_loop_None)
    moreover have "loop_post cs mode bin on code a bb [] bb"
      using None by (simp add: loop_post_def total_size_def stops_at_def)
    ultimately show ?thesis by auto
  next
    case (Some x)
    then obtain ci code' a' where iter: "cs_disasm_iter cs mode code a = Some (ci, code', a')"
      by (cases x) auto
    note it = cs_disasm_iter_Some [OF iter]
    from "1.prems"(1) have on': "(if nd = 0 \<and> ins_nop bin ci then True else on) = on" by simp
    consider (inv) "cs_id ci = X86_INS_INVALID"
      | (zero) "cs_id ci \<noteq> X86_INS_INVALID" "cs_size ci = 0"
      | (bound) "cs_id ci \<noteq> X86_INS_INVALID" "cs_size ci \<noteq> 0" "ins_nop bin ci \<noteq> on"
      | (cflow) "cs_id ci \<noteq> X86_INS_INVALID" "cs_size ci \<noteq> 0" "ins_nop bin ci = on"
          "is_cs_cflow_ins ci"
      | (cont) "cs_id ci \<noteq> X86_INS_INVALID" "cs_size ci \<noteq> 0" "ins_nop bin ci = on"
          "\<not> is_cs_cflow_ins ci"
      by blast
    then show ?thesis
    proof cases
      case inv
      with "1.prems" iter have "r = nd" "bb' = bb\<lparr>bb_invalid := True, bb_end := bb_end bb + 1\<rparr>"
        by (simp_all add: bb_loop_invalid)
      moreover have "loop_post cs mode bin on code a bb []
          (bb\<lparr>bb_invalid := True, bb_end := bb_end bb + 1\<rparr>)"
        using iter inv by (simp add: loop_post_def total_size_def)
      ultimately show ?thesis by auto
    next
      case zero
      with "1.prems" iter have "r = nd" "bb' = bb" by (simp_all add: bb_loop_zero)
      moreover have "loop_post cs mode bin on code a bb [] bb"
        using iter zero by (simp add: loop_post_def total_size_def stops_at_def)
      ultimately show ?thesis by auto
    next
      case bound
      with "1.prems" iter on' have "r = nd" "bb' = bb" by (simp_all add: bb_loop_boundary)
      moreover have "loop_post cs mode bin on code a bb [] bb"
        using iter bound by (simp add: loop_post_def total_size_def stops_at_def)
      ultimately show ?thesis by auto
    next
      case cflow
      with "1.prems" iter on' have "r = nd + 1" "bb' = bb_append bin ci bb"
        by (simp_all add: bb_loop_cflow)
      moreover have "loop_post cs mode bin on code a bb [new_Instruction bin ci] (bb_append bin ci bb)"
        using cflow it(1) by (simp add: loop_post_def total_size_def)
      ultimately show ?thesis by (intro exI [of _ "[new_Instruction bin ci]"]) simp
    next
      case cont
      with "1.prems" iter on'
      have rec: "bb_loop cs mode bin code' a' (nd + 1) on (bb_append bin ci bb) = (r, bb')"
        by (simp add: bb_loop_continue)
      have "\<exists>new. r = nd + 1 + int (length new) \<and>
          loop_post cs mode bin (if nd = 0 \<and> ins_nop bin ci then True else on) code' a'
            (bb_append bin ci bb) new bb'"
        by (rule "1.IH" [OF iter refl refl cont(1,2) refl refl refl])
           (use cont on' rec "1.prems" in simp_all)
      then obtain new where r: "r = nd + 1 + int (length new)"
        and post: "loop_post cs mode bin on code' a' (bb_append bin ci bb) new bb'"
        unfolding on' by blast
      from loop_post_Cons [OF iter cont(2,3,4) post] r
      show ?thesis by (intro exI [of _ "new_Instruction bin ci # new"]) simp
    qed
  qed
qed


lemma bb_loop_first:
  assumes "bb_loop cs mode bin code a 0 False bb = (r, bb')"
  shows "\<exists>new. r = int (length new) \<and> loop_post cs mode bin (first_nop new) code a bb new bb'"
proof (cases "cs_disasm_iter cs mode code a")
  case None
  with assms have "r = 0" "bb' = bb" by (simp_all add: bb_loop_None)
  moreover have "loop_post cs mode bin (first_nop []) code a bb [] bb"
    using None by (simp add: loop_post_def total_size_def stops_at_def)
  ultimately show ?thesis by (intro exI [of _ "[]"]) simp
next
  case (Some x)
  then obtain ci code' a' where iter: "cs_disasm_iter cs mode code a = Some (ci, code', a')"
    by (cases x) auto
  note it = cs_disasm_iter_Some [OF iter]
  let ?i = "new_Instruction bin ci"
  have on': "(if (0::int) = 0 \<and> ins_nop bin ci then True else False) = ins_nop bin ci" by simp
  consider (inv) "cs_id ci = X86_INS_INVALID"
    | (zero) "cs_id ci \<noteq> X86_INS_INVALID" "cs_size ci = 0"
    | (cflow) "cs_id ci \<noteq> X86_INS_INVALID" "cs_size ci \<noteq> 0" "is_cs_cflow_ins ci"
    | (cont) "cs_id ci \<noteq> X86_INS_INVALID" "cs_size ci \<noteq> 0" "\<not> is_cs_cflow_ins ci"
    by blast
  then show ?thesis
  proof cases
    case inv
    with assms iter have "r = 0" "bb' = bb\<lparr>bb_invalid := True, bb_end := bb_end bb + 1\<rparr>"
      by (simp_all add: bb_loop_invalid)
    moreover have "loop_post cs mode bin (first_nop []) code a bb []
        (bb\<lparr>bb_invalid := True, bb_end := bb_end bb + 1\<rparr>)"
      using iter inv by (simp add: loop_post_def total_size_def)
    ultimately show ?thesis by (intro exI [of _ "[]"]) simp
  next
    case zero
    with assms iter have "r = 0" "bb' = bb" by (simp_all add: bb_loop_zero)
    moreover have "loop_post cs mode bin (first_nop []) code a bb [] bb"
      using iter zero by (simp add: loop_post_def total_size_def stops_at_def)
    ultimately show ?thesis by (intro exI [of _ "[]"]) simp
  next
    case cflow
    with assms iter on' have "r = 1" "bb' = bb_append bin ci bb"
      using bb_loop_cflow [OF iter cflow(1,2), of bin 0 False bb] by simp_all
    moreover have "loop_post cs mode bin (first_nop [?i]) code a bb [?i] (bb_append bin ci bb)"
      using cflow it(1) by (simp add: loop_post_def total_size_def first_nop_def)
    ultimately show ?thesis by (intro exI [of _ "[?i]"]) simp
  next
    case cont
    with assms iter on'
    have rec: "bb_loop cs mode bin code' a' 1 (ins_nop bin ci) (bb_append bin ci bb) = (r, bb')"
      using bb_loop_continue [OF iter cont(1,2), of bin 0 False bb] by simp
    from bb_loop_post [OF _ rec] obtain new where r: "r = 1 + int (length new)"
      and post: "loop_post cs mode bin (ins_nop bin ci) code' a' (bb_append bin ci bb) new bb'"
      by auto
    have "first_nop (?i # new) = ins_nop bin ci" by (simp add: first_nop_def)
    with loop_post_Cons [OF iter cont(2) refl cont(3) post] r
    show ?thesis by (intro exI [of _ "?i # new"]) simp
  qed
qed

section \<open>Decoding one basic block: the function\<close>

lemma in_section_iff:
  "in_section sec a \<longleftrightarrow> \<not> (a < sec_vma sec \<or> a - sec_vma sec \<ge> sec_size sec)"
proof (cases "sec_vma sec \<le> a")
  case True
  then have "unat (a - sec_vma sec) = unat a - unat (sec_vma sec)" by (simp add: unat_sub)
  moreover from True have "unat (sec_vma sec) \<le> unat a" by (simp add: word_le_nat_alt)
  ultimately show ?thesis
    using True by (auto simp: in_section_def word_le_nat_alt word_less_nat_alt)
next
  case False
  then show ?thesis by (auto simp: in_section_def word_le_nat_alt word_less_nat_alt)
qed

lemma length_code_at:
  assumes "in_section sec a"
  shows "unat a + length (code_at sec a) \<le> unat (sec_vma sec) + unat (sec_size sec)"
proof -
  from assms have le: "sec_vma sec \<le> a" and lt: "a - sec_vma sec < sec_size sec"
    by (auto simp: in_section_iff)
  have o: "unat (a - sec_vma sec) = unat a - unat (sec_vma sec)" using le by (simp add: unat_sub)
  have "unat (sec_size sec - (a - sec_vma sec)) = unat (sec_size sec) - unat (a - sec_vma sec)"
    using lt by (simp add: unat_sub)
  moreover have "unat (sec_vma sec) \<le> unat a" using le by (simp add: word_le_nat_alt)
  moreover have "unat (a - sec_vma sec) < unat (sec_size sec)" using lt by (simp add: word_less_nat_alt)
  ultimately show ?thesis using o by (simp add: code_at_def)
qed

text \<open>The two outcomes of the function: the label \<^verbatim>\<open>fail\<close>, or the loop and the
  adjustment of an empty block after it.\<close>

lemma bb_x86_outcome:
  assumes "nucleus_disasm_bb_x86 cs bin dis bb = (ret, bb')"
  shows "(ret = - 1 \<and> bb' = bb \<and>
          (mode_of_bits (bin_bits bin) = None \<or>
           (\<exists>mode. mode_of_bits (bin_bits bin) = Some mode \<and>
                    (\<not> cs_open_ok cs mode \<or> \<not> cs_malloc_ok cs)) \<or>
           \<not> in_section (dis_section dis) (bb_start bb))) \<or>
         (\<exists>mode nd bb2.
            mode_of_bits (bin_bits bin) = Some mode \<and> cs_open_ok cs mode \<and> cs_malloc_ok cs \<and>
            in_section (dis_section dis) (bb_start bb) \<and>
            bb_loop cs mode bin (code_at (dis_section dis) (bb_start bb)) (bb_start bb) 0 False
              (bb\<lparr>bb_end := bb_start bb, bb_section := Some (dis_section dis)\<rparr>) = (nd, bb2) \<and>
            ret = nd \<and>
            bb' = (if nd = 0 then bb2\<lparr>bb_invalid := True, bb_end := bb_end bb2 + 1\<rparr> else bb2))"
  using assms
  unfolding nucleus_disasm_bb_x86_def mode_of_bits_def in_section_iff code_at_def Let_def
  by (auto split: if_splits prod.splits)

lemma bb_x86_decoded:
  assumes "nucleus_disasm_bb_x86 cs bin dis bb = (ret, bb')" and "0 \<le> ret"
  shows "\<exists>mode new bb2.
           mode_of_bits (bin_bits bin) = Some mode \<and>
           in_section (dis_section dis) (bb_start bb) \<and>
           ret = int (length new) \<and>
           loop_post cs mode bin (first_nop new) (code_at (dis_section dis) (bb_start bb))
             (bb_start bb) (bb\<lparr>bb_end := bb_start bb, bb_section := Some (dis_section dis)\<rparr>) new bb2 \<and>
           bb' = (if new = [] then bb2\<lparr>bb_invalid := True, bb_end := bb_end bb2 + 1\<rparr> else bb2)"
proof -
  from bb_x86_outcome [OF assms(1)] assms(2)
  obtain mode nd bb2 where m: "mode_of_bits (bin_bits bin) = Some mode"
    and s: "in_section (dis_section dis) (bb_start bb)"
    and l: "bb_loop cs mode bin (code_at (dis_section dis) (bb_start bb)) (bb_start bb) 0 False
              (bb\<lparr>bb_end := bb_start bb, bb_section := Some (dis_section dis)\<rparr>) = (nd, bb2)"
    and r: "ret = nd"
    and b: "bb' = (if nd = 0 then bb2\<lparr>bb_invalid := True, bb_end := bb_end bb2 + 1\<rparr> else bb2)"
    by auto
  from bb_loop_first [OF l] obtain new where n: "nd = int (length new)"
    and p: "loop_post cs mode bin (first_nop new) (code_at (dis_section dis) (bb_start bb))
             (bb_start bb) (bb\<lparr>bb_end := bb_start bb, bb_section := Some (dis_section dis)\<rparr>) new bb2"
    by blast
  from n have "(nd = 0) = (new = [])" by simp
  with m s r b n p show ?thesis by auto
qed


section \<open>Forward progress\<close>

lemma unat_add_of_nat:
  fixes x :: "64 word"
  assumes "unat x + k < 2 ^ 64"
  shows "unat (x + of_nat k) = unat x + k"
proof -
  from assms have "k < 2 ^ LENGTH(64)" by simp
  then have k: "unat (of_nat k :: 64 word) = k" by (simp add: unat_of_nat)
  with assms have "unat x + unat (of_nat k :: 64 word) < 2 ^ LENGTH(64)" by simp
  then show ?thesis using k by (simp add: unat_add_lem [THEN iffD1])
qed

lemma total_size_pos:
  assumes "\<forall>i \<in> set new. ins_size i \<noteq> 0" and "new \<noteq> []"
  shows "0 < total_size new"
proof -
  from assms(2) obtain i rest where "new = i # rest" by (cases new) auto
  moreover from this assms(1) have "0 < unat (ins_size i)" by (simp add: unat_gt_0)
  ultimately show ?thesis by (simp add: total_size_def)
qed

lemma never_invalid_iter:
  assumes "never_invalid cs" and "cs_disasm_iter cs mode code a = Some (ci, code', a')"
  shows "cs_id ci \<noteq> X86_INS_INVALID"
  using assms
  by (auto simp: never_invalid_def cs_disasm_iter_def split: option.splits if_splits)

text \<open>
  C1, amended.  Let the range of the section not wrap around the 64-bit address space
  (\<open>vma + size < 2^64\<close>), and let the decoder never report an instruction with the
  identifier \<^verbatim>\<open>X86_INS_INVALID\<close> (the path of the loop that such a report takes is the
  subject of C5 and is left out here).  Then every call that does not return the hard
  error, which includes every call with a start address in the section when the decoder
  can be set up, leaves a block with \<open>end > start\<close>, also when the very first decode
  attempt fails.
\<close>

theorem forward_progress:
  assumes "nucleus_disasm_bb_x86 cs bin dis bb = (ret, bb')" and "0 \<le> ret"
    and "unat (sec_vma (dis_section dis)) + unat (sec_size (dis_section dis)) < 2 ^ 64"
    and "never_invalid cs"
  shows "in_section (dis_section dis) (bb_start bb) \<and> bb_start bb' = bb_start bb \<and>
         bb_start bb' < bb_end bb'"
proof -
  let ?sec = "dis_section dis" and ?a = "bb_start bb"
  from bb_x86_decoded [OF assms(1,2)] obtain mode new bb2 where
    s: "in_section ?sec ?a"
    and p: "loop_post cs mode bin (first_nop new) (code_at ?sec ?a) ?a
             (bb\<lparr>bb_end := ?a, bb_section := Some ?sec\<rparr>) new bb2"
    and b: "bb' = (if new = [] then bb2\<lparr>bb_invalid := True, bb_end := bb_end bb2 + 1\<rparr> else bb2)"
    by blast
  let ?t = "total_size new"
  from p never_invalid_iter [OF assms(4)]
  have st: "bb_start bb2 = ?a" and sz: "\<forall>i \<in> set new. ins_size i \<noteq> 0"
    and le: "?t \<le> length (code_at ?sec ?a)"
    and e: "bb_end bb2 = ?a + of_nat ?t"
    by (auto simp: loop_post_def)
  have top: "unat ?a + ?t \<le> unat (sec_vma ?sec) + unat (sec_size ?sec)"
    using length_code_at [OF s] le by simp
  have inside: "unat ?a < unat (sec_vma ?sec) + unat (sec_size ?sec)"
    using s by (simp add: in_section_def)
  have "unat ?a < unat (bb_end bb')"
  proof (cases "new = []")
    case True
    then have t0: "?t = 0" by (simp add: total_size_def)
    from e t0 have "bb_end bb' = ?a + of_nat 1" using b True by simp
    moreover have "unat ?a + 1 < 2 ^ 64" using inside assms(3) by simp
    then have "unat (?a + of_nat 1) = unat ?a + 1" by (rule unat_add_of_nat)
    ultimately show ?thesis by simp
  next
    case False
    then have pos: "0 < ?t" using sz by (rule total_size_pos [rotated])
    from e have "bb_end bb' = ?a + of_nat ?t" using b False by simp
    moreover have "unat ?a + ?t < 2 ^ 64" using top assms(3) by simp
    then have "unat (?a + of_nat ?t) = unat ?a + ?t" by (rule unat_add_of_nat)
    ultimately show ?thesis using pos by simp
  qed
  then have "bb_start bb < bb_end bb'" by (simp add: word_less_nat_alt)
  moreover have "bb_start bb' = bb_start bb" using b st by simp
  ultimately show ?thesis using s by simp
qed

section \<open>The block decoder on the concrete inputs\<close>

lemma dis_section_init [simp]: "dis_section (init_DisasmSection sec) = sec"
  by (simp add: init_DisasmSection_def)

lemma BB_at_fields [simp]:
  "bb_start (BB_at a) = a" "bb_end (BB_at a) = 0" "bb_section (BB_at a) = None"
  "bb_insns (BB_at a) = []" "bb_invalid (BB_at a) = False" "bb_alive (BB_at a) = False"
  by (simp_all add: BB_at_def)

lemma dis_sections [simp]:
  "dis_section dis_1000 = section_1000" "dis_section dis_2000 = section_2000"
  "dis_section dis_top = section_top"
  by (simp_all add: dis_1000_def dis_2000_def dis_top_def)

lemma toy_iter_Nil [simp]: "cs_disasm_iter capstone_toy mode [] a = None"
  by (simp add: cs_disasm_iter_def capstone_toy_def)

lemma toy_iter_Cons [simp]:
  "cs_disasm_iter capstone_toy mode (b # rest) a =
     (if b = 0x90 then Some (toy_nop a, rest, a + 1)
      else if b = 0xC3 then Some (toy_ret a, rest, a + 1)
      else None)"
  by (simp add: cs_disasm_iter_def capstone_toy_def toy_nop_def toy_ret_def)

lemma invalid_iter_Cons [simp]:
  "cs_disasm_iter capstone_invalid mode (b # rest) a = Some (toy_invalid a, rest, a + 1)"
  by (simp add: cs_disasm_iter_def capstone_invalid_def toy_invalid_def)

lemma toy_classes [simp]:
  "cs_id (toy_nop a) = X86_INS_NOP" "cs_size (toy_nop a) = 1" "\<not> is_cs_cflow_ins (toy_nop a)"
  "ins_nop bin (toy_nop a)" "\<not> is_cs_privileged_ins (toy_nop a)" "\<not> is_cs_trap_ins (toy_nop a)"
  "cs_id (toy_ret a) = X86_INS_RET" "cs_size (toy_ret a) = 1" "is_cs_cflow_ins (toy_ret a)"
  "\<not> ins_nop bin (toy_ret a)" "\<not> is_cs_privileged_ins (toy_ret a)" "\<not> is_cs_trap_ins (toy_ret a)"
  "cs_id (toy_invalid a) = X86_INS_INVALID"
  by (simp_all add: toy_nop_def toy_ret_def toy_invalid_def is_cs_cflow_ins_def
      is_cs_cflow_group_def ins_nop_def is_cs_nop_ins_def is_cs_semantic_nop_ins_def
      is_cs_trap_ins_def is_cs_privileged_ins_def)

lemma toy_setup [simp]:
  "cs_open_ok capstone_toy mode" "cs_malloc_ok capstone_toy"
  "cs_open_ok capstone_invalid mode" "cs_malloc_ok capstone_invalid"
  "bin_bits binary_elf = 64"
  by (simp_all add: capstone_toy_def capstone_invalid_def binary_elf_def)

lemma bb_x86_eval:
  assumes "bin_bits bin = 64" and "cs_open_ok cs CS_MODE_64" and "cs_malloc_ok cs"
    and "in_section sec a" and "code_at sec a = code"
    and "bb_loop cs CS_MODE_64 bin code a 0 False
           ((BB_at a)\<lparr>bb_end := a, bb_section := Some sec\<rparr>) = (nd, bb2)"
  shows "nucleus_disasm_bb_x86 cs bin (init_DisasmSection sec) (BB_at a) =
           (nd, if nd = 0 then bb2\<lparr>bb_invalid := True, bb_end := bb_end bb2 + 1\<rparr> else bb2)"
  using assms
  unfolding nucleus_disasm_bb_x86_def in_section_iff code_at_def Let_def
  by (auto simp: BB_at_def split: if_splits)

lemma toy_1000:
  "nucleus_disasm_bb_x86 capstone_toy binary_elf dis_1000 (BB_at 0x1000) =
     (2, (BB_at 0x1000)
          \<lparr>bb_end := 0x1002, bb_section := Some section_1000,
           bb_insns := [new_Instruction binary_elf (toy_nop 0x1000),
                        new_Instruction binary_elf (toy_nop 0x1001)],
           bb_padding := True\<rparr>)"
proof -
  have s: "in_section section_1000 0x1000" by (simp add: in_section_def section_1000_def)
  have c: "code_at section_1000 0x1000 = [0x90, 0x90, 0xC3]"
    by (simp add: code_at_def section_1000_def)
  have l: "bb_loop capstone_toy CS_MODE_64 binary_elf [0x90, 0x90, 0xC3] 0x1000 0 False
          ((BB_at 0x1000)\<lparr>bb_end := 0x1000, bb_section := Some section_1000\<rparr>) =
        (2, (BB_at 0x1000)
          \<lparr>bb_end := 0x1002, bb_section := Some section_1000,
           bb_insns := [new_Instruction binary_elf (toy_nop 0x1000),
                        new_Instruction binary_elf (toy_nop 0x1001)],
           bb_padding := True\<rparr>)"
    by (simp add: bb_loop.simps bb_append_def BB_at_def)
  from bb_x86_eval [OF toy_setup(5) toy_setup(1) toy_setup(2) s c l]
  show ?thesis by (simp add: dis_1000_def)
qed

lemma toy_1002:
  "nucleus_disasm_bb_x86 capstone_toy binary_elf dis_1000 (BB_at 0x1002) =
     (1, (BB_at 0x1002)
          \<lparr>bb_end := 0x1003, bb_section := Some section_1000,
           bb_insns := [new_Instruction binary_elf (toy_ret 0x1002)]\<rparr>)"
proof -
  have s: "in_section section_1000 0x1002" by (simp add: in_section_def section_1000_def)
  have c: "code_at section_1000 0x1002 = [0xC3]"
    by (simp add: code_at_def section_1000_def)
  have l: "bb_loop capstone_toy CS_MODE_64 binary_elf [0xC3] 0x1002 0 False
          ((BB_at 0x1002)\<lparr>bb_end := 0x1002, bb_section := Some section_1000\<rparr>) =
        (1, (BB_at 0x1002)
          \<lparr>bb_end := 0x1003, bb_section := Some section_1000,
           bb_insns := [new_Instruction binary_elf (toy_ret 0x1002)]\<rparr>)"
    by (simp add: bb_loop.simps bb_append_def BB_at_def)
  from bb_x86_eval [OF toy_setup(5) toy_setup(1) toy_setup(2) s c l]
  show ?thesis by (simp add: dis_1000_def)
qed

lemma toy_2000:
  "nucleus_disasm_bb_x86 capstone_toy binary_elf dis_2000 (BB_at 0x2000) =
     (1, (BB_at 0x2000)
          \<lparr>bb_end := 0x2001, bb_section := Some section_2000,
           bb_insns := [new_Instruction binary_elf (toy_nop 0x2000)],
           bb_padding := True\<rparr>)"
proof -
  have s: "in_section section_2000 0x2000" by (simp add: in_section_def section_2000_def)
  have c: "code_at section_2000 0x2000 = [0x90, 0x06, 0xC3]"
    by (simp add: code_at_def section_2000_def)
  have l: "bb_loop capstone_toy CS_MODE_64 binary_elf [0x90, 0x06, 0xC3] 0x2000 0 False
          ((BB_at 0x2000)\<lparr>bb_end := 0x2000, bb_section := Some section_2000\<rparr>) =
        (1, (BB_at 0x2000)
          \<lparr>bb_end := 0x2001, bb_section := Some section_2000,
           bb_insns := [new_Instruction binary_elf (toy_nop 0x2000)],
           bb_padding := True\<rparr>)"
    by (simp add: bb_loop.simps bb_append_def BB_at_def)
  from bb_x86_eval [OF toy_setup(5) toy_setup(1) toy_setup(2) s c l]
  show ?thesis by (simp add: dis_2000_def)
qed

lemma toy_top:
  "nucleus_disasm_bb_x86 capstone_toy binary_elf dis_top (BB_at 0xFFFFFFFFFFFFFFFF) =
     (1, (BB_at 0xFFFFFFFFFFFFFFFF)
          \<lparr>bb_end := 0, bb_section := Some section_top,
           bb_insns := [new_Instruction binary_elf (toy_nop 0xFFFFFFFFFFFFFFFF)],
           bb_padding := True\<rparr>)"
proof -
  have s: "in_section section_top 0xFFFFFFFFFFFFFFFF"
    by (simp add: in_section_def section_top_def)
  have c: "code_at section_top 0xFFFFFFFFFFFFFFFF = [0x90]"
    by (simp add: code_at_def section_top_def)
  have l: "bb_loop capstone_toy CS_MODE_64 binary_elf [0x90] 0xFFFFFFFFFFFFFFFF 0 False
          ((BB_at 0xFFFFFFFFFFFFFFFF)\<lparr>bb_end := 0xFFFFFFFFFFFFFFFF, bb_section := Some section_top\<rparr>) =
        (1, (BB_at 0xFFFFFFFFFFFFFFFF)
          \<lparr>bb_end := 0, bb_section := Some section_top,
           bb_insns := [new_Instruction binary_elf (toy_nop 0xFFFFFFFFFFFFFFFF)],
           bb_padding := True\<rparr>)"
    by (simp add: bb_loop.simps bb_append_def BB_at_def)
  from bb_x86_eval [OF toy_setup(5) toy_setup(1) toy_setup(2) s c l]
  show ?thesis by (simp add: dis_top_def)
qed

lemma invalid_1000:
  "nucleus_disasm_bb_x86 capstone_invalid binary_elf dis_1000 (BB_at 0x1000) =
     (0, (BB_at 0x1000)
          \<lparr>bb_end := 0x1002, bb_section := Some section_1000, bb_invalid := True\<rparr>)"
proof -
  have s: "in_section section_1000 0x1000" by (simp add: in_section_def section_1000_def)
  have c: "code_at section_1000 0x1000 = [0x90, 0x90, 0xC3]"
    by (simp add: code_at_def section_1000_def)
  have l: "bb_loop capstone_invalid CS_MODE_64 binary_elf [0x90, 0x90, 0xC3] 0x1000 0 False
          ((BB_at 0x1000)\<lparr>bb_end := 0x1000, bb_section := Some section_1000\<rparr>) =
        (0, (BB_at 0x1000)
          \<lparr>bb_end := 0x1001, bb_section := Some section_1000, bb_invalid := True\<rparr>)"
    by (simp add: bb_loop.simps BB_at_def)
  from bb_x86_eval [OF toy_setup(5) toy_setup(3) toy_setup(4) s c l]
  show ?thesis by (simp add: dis_1000_def BB_at_def)
qed


lemma toy_2001:
  "nucleus_disasm_bb_x86 capstone_toy binary_elf dis_2000 (BB_at 0x2001) =
     (0, (BB_at 0x2001)
          \<lparr>bb_end := 0x2002, bb_section := Some section_2000, bb_invalid := True\<rparr>)"
proof -
  have s: "in_section section_2000 0x2001" by (simp add: in_section_def section_2000_def)
  have c: "code_at section_2000 0x2001 = [0x06, 0xC3]"
    by (simp add: code_at_def section_2000_def)
  have l: "bb_loop capstone_toy CS_MODE_64 binary_elf [0x06, 0xC3] 0x2001 0 False
          ((BB_at 0x2001)\<lparr>bb_end := 0x2001, bb_section := Some section_2000\<rparr>) =
        (0, (BB_at 0x2001)\<lparr>bb_end := 0x2001, bb_section := Some section_2000\<rparr>)"
    by (simp add: bb_loop.simps)
  from bb_x86_eval [OF toy_setup(5) toy_setup(1) toy_setup(2) s c l]
  show ?thesis by (simp add: dis_2000_def BB_at_def)
qed

lemma toy_never_invalid: "never_invalid capstone_toy"
  by (auto simp: never_invalid_def capstone_toy_def toy_nop_def toy_ret_def
      split: list.splits if_splits)

theorem forward_progress_witness:
  "nucleus_disasm_bb_x86 capstone_toy binary_elf dis_1000 (BB_at 0x1000) =
     (2, snd (nucleus_disasm_bb_x86 capstone_toy binary_elf dis_1000 (BB_at 0x1000))) \<and>
   nucleus_disasm_bb_x86 capstone_toy binary_elf dis_2000 (BB_at 0x2001) =
     (0, snd (nucleus_disasm_bb_x86 capstone_toy binary_elf dis_2000 (BB_at 0x2001))) \<and>
   cs_disasm_iter capstone_toy CS_MODE_64 (code_at section_2000 0x2001) 0x2001 = None \<and>
   unat (sec_vma (dis_section dis_1000)) + unat (sec_size (dis_section dis_1000)) < 2 ^ 64 \<and>
   unat (sec_vma (dis_section dis_2000)) + unat (sec_size (dis_section dis_2000)) < 2 ^ 64 \<and>
   never_invalid capstone_toy \<and>
   in_section (dis_section dis_1000) 0x1000 \<and>
   in_section (dis_section dis_2000) 0x2001 \<and>
   bb_start (snd (nucleus_disasm_bb_x86 capstone_toy binary_elf dis_1000 (BB_at 0x1000)))
     < bb_end (snd (nucleus_disasm_bb_x86 capstone_toy binary_elf dis_1000 (BB_at 0x1000))) \<and>
   bb_start (snd (nucleus_disasm_bb_x86 capstone_toy binary_elf dis_2000 (BB_at 0x2001)))
     < bb_end (snd (nucleus_disasm_bb_x86 capstone_toy binary_elf dis_2000 (BB_at 0x2001)))"
proof -
  let ?X = "nucleus_disasm_bb_x86 capstone_toy binary_elf dis_1000 (BB_at 0x1000)"
  let ?Y = "nucleus_disasm_bb_x86 capstone_toy binary_elf dis_2000 (BB_at 0x2001)"
  have x: "?X = (2, snd ?X)" by (simp add: toy_1000)
  have y: "?Y = (0, snd ?Y)" by (simp add: toy_2001)
  have f: "cs_disasm_iter capstone_toy CS_MODE_64 (code_at section_2000 0x2001) 0x2001 = None"
    by (simp add: code_at_def section_2000_def)
  have w: "unat (sec_vma (dis_section dis_1000)) + unat (sec_size (dis_section dis_1000)) < 2 ^ 64"
    by (simp add: section_1000_def)
  have v: "unat (sec_vma (dis_section dis_2000)) + unat (sec_size (dis_section dis_2000)) < 2 ^ 64"
    by (simp add: section_2000_def)
  note n = toy_never_invalid
  have i: "in_section (dis_section dis_1000) 0x1000"
    and 1: "bb_start (snd ?X) < bb_end (snd ?X)"
    using forward_progress [OF x _ w n] by auto
  have j: "in_section (dis_section dis_2000) 0x2001"
    and 2: "bb_start (snd ?Y) < bb_end (snd ?Y)"
    using forward_progress [OF y _ v n] by auto
  show ?thesis using x y f w v n i j 1 2 by blast
qed

text \<open>
  C1 as stated fails for a section that reaches the end of the address space
  (\<open>vma + size = 2^64\<close>): the start address is in the section, the decoder reports a
  \<^verbatim>\<open>nop\<close>, the call returns 1, and \<open>end\<close> has wrapped to 0.
\<close>

theorem forward_progress_wraps:
  "in_section (dis_section dis_top) (bb_start (BB_at 0xFFFFFFFFFFFFFFFF)) \<and>
   fst (nucleus_disasm_bb_x86 capstone_toy binary_elf dis_top (BB_at 0xFFFFFFFFFFFFFFFF)) = 1 \<and>
   bb_start (snd (nucleus_disasm_bb_x86 capstone_toy binary_elf dis_top (BB_at 0xFFFFFFFFFFFFFFFF)))
     = 0xFFFFFFFFFFFFFFFF \<and>
   bb_end (snd (nucleus_disasm_bb_x86 capstone_toy binary_elf dis_top (BB_at 0xFFFFFFFFFFFFFFFF))) = 0 \<and>
   \<not> bb_start (snd (nucleus_disasm_bb_x86 capstone_toy binary_elf dis_top (BB_at 0xFFFFFFFFFFFFFFFF)))
     < bb_end (snd (nucleus_disasm_bb_x86 capstone_toy binary_elf dis_top (BB_at 0xFFFFFFFFFFFFFFFF)))"
  by (simp add: toy_top in_section_def section_top_def)

section \<open>How a block ends\<close>

lemma code_at_drop:
  assumes s: "in_section sec a" and t: "t \<le> length (code_at sec a)"
  shows "drop t (code_at sec a) = code_at sec (a + of_nat t)"
proof -
  let ?o = "a - sec_vma sec"
  from s have lt: "?o < sec_size sec" by (auto simp: in_section_iff)
  then have ult: "unat ?o < unat (sec_size sec)" by (simp add: word_less_nat_alt)
  have n: "unat (sec_size sec - ?o) = unat (sec_size sec) - unat ?o"
    using lt by (simp add: unat_sub)
  from t have t': "t \<le> unat (sec_size sec) - unat ?o" by (simp add: code_at_def n)
  have "unat (sec_size sec) < 2 ^ 64" using unsigned_less [of "sec_size sec"] by simp
  with t' ult have "unat ?o + t < 2 ^ 64" by simp
  then have o': "unat (?o + of_nat t) = unat ?o + t" by (rule unat_add_of_nat)
  have sh: "a + of_nat t - sec_vma sec = ?o + of_nat t" by simp
  have "?o + of_nat t \<le> sec_size sec" using o' t' ult by (simp add: word_le_nat_alt)
  then have n': "unat (sec_size sec - (?o + of_nat t)) = unat (sec_size sec) - (unat ?o + t)"
    by (simp add: unat_sub o')
  show ?thesis
    unfolding code_at_def sh n n' o'
    by (simp add: drop_take add.commute)
qed

text \<open>
  C4, amended.  A block to which a call has appended at least one instruction ends in
  one of these ways: its last instruction is control-flow-ending (it carries the CFLOW
  flag, which is set for the groups jump, call, return and interrupt return); or the
  block is marked invalid; or, at the address where the block ends, the decoder reports
  nothing (the bytes of the section have run out, or the bytes there are no
  instruction), or an instruction of size 0, or an instruction on the other side of the
  no-op boundary.  No instruction before the last is control-flow-ending.
\<close>

theorem block_end_reason:
  assumes "nucleus_disasm_bb_x86 cs bin dis bb = (ret, bb')" and "0 < ret"
  shows "\<exists>mode new.
           mode_of_bits (bin_bits bin) = Some mode \<and>
           bb_insns bb' = bb_insns bb @ new \<and> new \<noteq> [] \<and>
           (INS_FLAG_CFLOW \<in> ins_flags (last new) \<or> bb_invalid bb' \<or>
            stops_at cs mode bin (INS_FLAG_NOP \<in> ins_flags (hd new))
              (code_at (dis_section dis) (bb_end bb')) (bb_end bb')) \<and>
           (\<forall>i \<in> set (butlast new). INS_FLAG_CFLOW \<notin> ins_flags i)"
proof -
  let ?sec = "dis_section dis" and ?a = "bb_start bb"
  from assms(2) have "0 \<le> ret" by simp
  from bb_x86_decoded [OF assms(1) this] obtain mode new bb2 where
    m: "mode_of_bits (bin_bits bin) = Some mode"
    and s: "in_section ?sec ?a"
    and r: "ret = int (length new)"
    and p: "loop_post cs mode bin (first_nop new) (code_at ?sec ?a) ?a
             (bb\<lparr>bb_end := ?a, bb_section := Some ?sec\<rparr>) new bb2"
    and b: "bb' = (if new = [] then bb2\<lparr>bb_invalid := True, bb_end := bb_end bb2 + 1\<rparr> else bb2)"
    by blast
  from r assms(2) have ne: "new \<noteq> []" by auto
  with b have bb': "bb' = bb2" by simp
  let ?t = "total_size new"
  from p have le: "?t \<le> length (code_at ?sec ?a)" by (simp add: loop_post_def)
  have dr: "drop ?t (code_at ?sec ?a) = code_at ?sec (?a + of_nat ?t)"
    using s le by (rule code_at_drop)
  have fn: "first_nop new = (INS_FLAG_NOP \<in> ins_flags (hd new))"
    using ne by (cases new) (simp_all add: first_nop_def)
  from p have "INS_FLAG_CFLOW \<in> ins_flags (last new) \<or> bb_invalid bb2 \<or>
      (stops_at cs mode bin (first_nop new) (drop ?t (code_at ?sec ?a)) (?a + of_nat ?t) \<and>
       bb_end bb2 = ?a + of_nat ?t)"
    by (auto simp: loop_post_def)
  then have "INS_FLAG_CFLOW \<in> ins_flags (last new) \<or> bb_invalid bb' \<or>
      stops_at cs mode bin (INS_FLAG_NOP \<in> ins_flags (hd new)) (code_at ?sec (bb_end bb')) (bb_end bb')"
    unfolding dr fn bb' by auto
  moreover from p have "bb_insns bb' = bb_insns bb @ new"
    and "\<forall>i \<in> set (butlast new). INS_FLAG_CFLOW \<notin> ins_flags i"
    by (simp_all add: loop_post_def bb')
  ultimately show ?thesis using m ne by blast
qed

theorem block_end_reason_witness:
  "nucleus_disasm_bb_x86 capstone_toy binary_elf dis_1000 (BB_at 0x1002) =
     (1, snd (nucleus_disasm_bb_x86 capstone_toy binary_elf dis_1000 (BB_at 0x1002))) \<and>
   nucleus_disasm_bb_x86 capstone_toy binary_elf dis_1000 (BB_at 0x1000) =
     (2, snd (nucleus_disasm_bb_x86 capstone_toy binary_elf dis_1000 (BB_at 0x1000))) \<and>
   INS_FLAG_CFLOW \<in> ins_flags
     (last (bb_insns (snd (nucleus_disasm_bb_x86 capstone_toy binary_elf dis_1000 (BB_at 0x1002))))) \<and>
   INS_FLAG_CFLOW \<notin> ins_flags
     (last (bb_insns (snd (nucleus_disasm_bb_x86 capstone_toy binary_elf dis_1000 (BB_at 0x1000))))) \<and>
   \<not> bb_invalid (snd (nucleus_disasm_bb_x86 capstone_toy binary_elf dis_1000 (BB_at 0x1000))) \<and>
   stops_at capstone_toy CS_MODE_64 binary_elf True
     (code_at (dis_section dis_1000)
        (bb_end (snd (nucleus_disasm_bb_x86 capstone_toy binary_elf dis_1000 (BB_at 0x1000)))))
     (bb_end (snd (nucleus_disasm_bb_x86 capstone_toy binary_elf dis_1000 (BB_at 0x1000))))"
proof -
  let ?X = "nucleus_disasm_bb_x86 capstone_toy binary_elf dis_1000 (BB_at 0x1000)"
  let ?Y = "nucleus_disasm_bb_x86 capstone_toy binary_elf dis_1000 (BB_at 0x1002)"
  have x: "?X = (2, snd ?X)" by (simp add: toy_1000)
  have y: "?Y = (1, snd ?Y)" by (simp add: toy_1002)
  have m: "mode_of_bits (bin_bits binary_elf) = Some CS_MODE_64" by (simp add: mode_of_bits_def)
  from block_end_reason [OF x] obtain new where
    n: "bb_insns (snd ?X) = new"
    and d: "INS_FLAG_CFLOW \<in> ins_flags (last new) \<or> bb_invalid (snd ?X) \<or>
            stops_at capstone_toy CS_MODE_64 binary_elf (INS_FLAG_NOP \<in> ins_flags (hd new))
              (code_at (dis_section dis_1000) (bb_end (snd ?X))) (bb_end (snd ?X))"
    using m by auto
  have xs: "INS_FLAG_CFLOW \<notin> ins_flags (last (bb_insns (snd ?X)))" "\<not> bb_invalid (snd ?X)"
    "INS_FLAG_NOP \<in> ins_flags (hd (bb_insns (snd ?X)))"
    by (simp_all add: toy_1000)
  with d n have st: "stops_at capstone_toy CS_MODE_64 binary_elf True
      (code_at (dis_section dis_1000) (bb_end (snd ?X))) (bb_end (snd ?X))"
    by auto
  have ys: "INS_FLAG_CFLOW \<in> ins_flags (last (bb_insns (snd ?Y)))"
    by (simp add: toy_1002)
  show ?thesis using x y xs ys st by blast
qed

text \<open>
  C4 as stated fails where the decoder finds no instruction in the middle of a
  section: in \<open>90 06 C3\<close> the block at \<open>0x2000\<close> is the \<^verbatim>\<open>nop\<close> alone.  Its last instruction
  is not control-flow-ending, the block is not marked invalid, two bytes of the
  section are left, and the loop was left by its condition, not at the no-op boundary:
  no instruction was decoded at \<open>0x2001\<close>.
\<close>

theorem block_end_undecodable:
  "fst (nucleus_disasm_bb_x86 capstone_toy binary_elf dis_2000 (BB_at 0x2000)) = 1 \<and>
   INS_FLAG_CFLOW \<notin> ins_flags
     (last (bb_insns (snd (nucleus_disasm_bb_x86 capstone_toy binary_elf dis_2000 (BB_at 0x2000))))) \<and>
   \<not> bb_invalid (snd (nucleus_disasm_bb_x86 capstone_toy binary_elf dis_2000 (BB_at 0x2000))) \<and>
   bb_end (snd (nucleus_disasm_bb_x86 capstone_toy binary_elf dis_2000 (BB_at 0x2000))) = 0x2001 \<and>
   code_at (dis_section dis_2000) 0x2001 = [0x06, 0xC3] \<and>
   cs_disasm_iter capstone_toy CS_MODE_64 [0x06, 0xC3] 0x2001 = None"
  by (simp add: toy_2000 code_at_def section_2000_def)

section \<open>Blocks without instructions\<close>

text \<open>When a call appends no instruction, the block is marked invalid, and \<open>end\<close> is
  \<open>start + 1\<close> unless the decoder reported an instruction with the identifier
  \<^verbatim>\<open>X86_INS_INVALID\<close> at the start: then both increments are made.\<close>

lemma zero_instructions_end:
  assumes "nucleus_disasm_bb_x86 cs bin dis bb = (0, bb')"
  shows "bb_invalid bb' \<and> bb_insns bb' = bb_insns bb \<and>
         (\<exists>mode. mode_of_bits (bin_bits bin) = Some mode \<and>
            (case cs_disasm_iter cs mode (code_at (dis_section dis) (bb_start bb)) (bb_start bb) of
               None \<Rightarrow> bb_end bb' = bb_start bb + 1
             | Some (ci, c', a') \<Rightarrow>
                 if cs_id ci = X86_INS_INVALID then bb_end bb' = bb_start bb + 2
                 else bb_end bb' = bb_start bb + 1))"
proof -
  let ?sec = "dis_section dis" and ?a = "bb_start bb"
  from bb_x86_decoded [OF assms] obtain mode new bb2 where
    m: "mode_of_bits (bin_bits bin) = Some mode"
    and r: "0 = int (length new)"
    and p: "loop_post cs mode bin (first_nop new) (code_at ?sec ?a) ?a
             (bb\<lparr>bb_end := ?a, bb_section := Some ?sec\<rparr>) new bb2"
    and b: "bb' = (if new = [] then bb2\<lparr>bb_invalid := True, bb_end := bb_end bb2 + 1\<rparr> else bb2)"
    by auto
  from r have e: "new = []" by simp
  with p have
    "(bb_end bb2 = ?a + 1 \<and>
       (\<exists>ci c' a'. cs_disasm_iter cs mode (code_at ?sec ?a) ?a = Some (ci, c', a') \<and>
                   cs_id ci = X86_INS_INVALID))
     \<or> (stops_at cs mode bin (first_nop []) (code_at ?sec ?a) ?a \<and> bb_end bb2 = ?a)"
    and i: "bb_insns bb2 = bb_insns bb"
    by (auto simp: loop_post_def total_size_def)
  then have "case cs_disasm_iter cs mode (code_at ?sec ?a) ?a of
               None \<Rightarrow> bb_end bb2 + 1 = ?a + 1
             | Some (ci, c', a') \<Rightarrow>
                 if cs_id ci = X86_INS_INVALID then bb_end bb2 + 1 = ?a + 2
                 else bb_end bb2 + 1 = ?a + 1"
    by (auto simp: stops_at_def split: option.splits)
  with m b e i show ?thesis by (auto split: option.splits)
qed

text \<open>
  C5 fails on the code.  When the decoder reports an instruction with the identifier
  \<^verbatim>\<open>X86_INS_INVALID\<close> at the first byte, the loop body adds 1 to \<open>end\<close> and leaves the
  loop, and the test \<^verbatim>\<open>!ndisassembled\<close> after the loop adds 1 again: the block has no
  instruction, it is marked invalid, and \<open>end\<close> is \<open>start + 2\<close>.
\<close>

theorem invalid_first_end:
  "fst (nucleus_disasm_bb_x86 capstone_invalid binary_elf dis_1000 (BB_at 0x1000)) = 0 \<and>
   bb_insns (snd (nucleus_disasm_bb_x86 capstone_invalid binary_elf dis_1000 (BB_at 0x1000))) = [] \<and>
   bb_invalid (snd (nucleus_disasm_bb_x86 capstone_invalid binary_elf dis_1000 (BB_at 0x1000))) \<and>
   bb_start (snd (nucleus_disasm_bb_x86 capstone_invalid binary_elf dis_1000 (BB_at 0x1000))) = 0x1000 \<and>
   bb_end (snd (nucleus_disasm_bb_x86 capstone_invalid binary_elf dis_1000 (BB_at 0x1000))) = 0x1000 + 2"
  by (simp add: invalid_1000)

section \<open>A candidate outside its section\<close>

lemma bb_x86_outside:
  assumes "\<not> in_section (dis_section dis) (bb_start bb)"
  shows "nucleus_disasm_bb_x86 cs bin dis bb = (- 1, bb)"
  using assms
  unfolding nucleus_disasm_bb_x86_def in_section_iff Let_def
  by (auto split: option.splits)

lemma bb_outside:
  assumes "\<not> in_section (dis_section dis) (bb_start bb)"
  shows "nucleus_disasm_bb cs bin dis bb = (- 1, bb)"
  using bb_x86_outside [OF assms]
  by (simp add: nucleus_disasm_bb_def split: binary_arch.splits)

lemma disasm_mutants_outside:
  assumes "m \<in> set ms" and "\<not> in_section (dis_section dis) (bb_start m)"
  shows "disasm_mutants cs st bin dis ms = None"
  using assms
proof (induction ms)
  case Nil
  then show ?case by simp
next
  case (Cons x xs)
  show ?case
  proof (cases "x = m")
    case True
    then show ?thesis using Cons.prems(2) by (simp add: bb_outside)
  next
    case False
    with Cons have "disasm_mutants cs st bin dis xs = None" by simp
    then show ?thesis by (simp split: prod.splits)
  qed
qed

lemma section_loop_fail:
  assumes "snd s \<noteq> []" and "section_step cs st ndebug bin s = Goto_fail"
  shows "section_loop cs st ndebug bin s = Some (Inr (- 1, fst s))"
  using assms by (subst section_loop.simps) simp

text \<open>
  C7.  For a candidate whose start address is outside \<open>[vma, vma + size)\<close> of its
  section, \<^verbatim>\<open>nucleus_disasm_bb_x86\<close> (and so \<^verbatim>\<open>nucleus_disasm_bb\<close>) returns \<open>-1\<close>.  When the
  mutation policy proposes such a candidate for the parent at the head of the queue,
  the pass of the loop jumps to \<^verbatim>\<open>fail\<close>, and the loop and \<^verbatim>\<open>nucleus_disasm_section\<close>
  return \<open>-1\<close>: the candidate is not skipped.
\<close>

theorem outside_candidate_fails:
  assumes "\<not> in_section (dis_section dis) (bb_start m)"
  shows "fst (nucleus_disasm_bb_x86 cs bin dis m) = - 1 \<and>
         fst (nucleus_disasm_bb cs bin dis m) < 0 \<and>
         (Q \<noteq> [] \<and> m \<in> set (bb_mutate st dis (hd Q)) \<longrightarrow>
            section_step cs st ndebug bin (dis, Q) = Goto_fail \<and>
            section_loop cs st ndebug bin (dis, Q) = Some (Inr (- 1, dis))) \<and>
         (m \<in> set (bb_mutate st dis None) \<and>
          \<not> (sec_type (dis_section dis) \<noteq> SEC_TYPE_CODE \<and> only_code_sections) \<longrightarrow>
            nucleus_disasm_section cs st ndebug only_code_sections bin dis = Some (Inr (- 1, dis)))"
proof -
  have step: "section_step cs st ndebug bin (dis, Q) = Goto_fail"
    if "m \<in> set (bb_mutate st dis (hd Q))" for Q
    using disasm_mutants_outside [OF that assms, of cs st bin]
    by (simp add: section_step_def)
  have loop: "section_loop cs st ndebug bin (dis, Q) = Some (Inr (- 1, dis))"
    if "Q \<noteq> []" "m \<in> set (bb_mutate st dis (hd Q))" for Q
    using section_loop_fail [of "(dis, Q)" cs st ndebug bin] step [OF that(2)] that(1) by simp
  have "nucleus_disasm_section cs st ndebug only_code_sections bin dis = Some (Inr (- 1, dis))"
    if "m \<in> set (bb_mutate st dis None)"
      "\<not> (sec_type (dis_section dis) \<noteq> SEC_TYPE_CODE \<and> only_code_sections)"
    using loop [of "[None]"] that by (auto simp: nucleus_disasm_section_def)
  with step loop show ?thesis
    by (simp add: bb_x86_outside [OF assms] bb_outside [OF assms])
qed

theorem outside_candidate_fails_witness:
  "\<not> in_section (dis_section dis_1000) (bb_start (BB_at 0x2000)) \<and>
   BB_at 0x2000 \<in> set (bb_mutate strategy_outside dis_1000 None) \<and>
   fst (nucleus_disasm_bb_x86 capstone_toy binary_elf dis_1000 (BB_at 0x2000)) = - 1 \<and>
   section_step capstone_toy strategy_outside False binary_elf (dis_1000, [None]) = Goto_fail \<and>
   nucleus_disasm_section capstone_toy strategy_outside False True binary_elf dis_1000 =
     Some (Inr (- 1, dis_1000))"
proof -
  have out: "\<not> in_section (dis_section dis_1000) (bb_start (BB_at 0x2000))"
    by (simp add: in_section_def section_1000_def)
  have mem: "BB_at 0x2000 \<in> set (bb_mutate strategy_outside dis_1000 None)"
    by (simp add: strategy_outside_def)
  have code: "sec_type (dis_section dis_1000) = SEC_TYPE_CODE" by (simp add: section_1000_def)
  from outside_candidate_fails [OF out, of capstone_toy binary_elf "[None]" strategy_outside False True]
    mem code out
  show ?thesis by simp
qed

section \<open>The result of the selection policy\<close>

declare accept_loop.simps [simp del]

declare flag_code.simps [simp del]

lemma word_of_int_negative:
  assumes "- (2 ^ 31) \<le> r" and "r < 0"
  shows "unat (word_of_int r :: 32 word) = nat (2 ^ 32 + r)"
proof -
  have "(r + 4294967296) mod 4294967296 = r + 4294967296"
    using assms by (intro mod_pos_pos_trivial) simp_all
  moreover have "(r + 4294967296) mod 4294967296 = r mod 4294967296" by simp
  ultimately have "r mod 4294967296 = r + 4294967296" by simp
  moreover have "uint (word_of_int r :: 32 word) = r mod 2 ^ 32" by (simp add: uint_word_of_int)
  ultimately show ?thesis by (simp add: unat_eq_nat_uint add.commute)
qed

text \<open>
  C10.  The value that \<open>bb_select\<close> returns is stored in the unsigned \<^verbatim>\<open>n\<close>; the test
  \<^verbatim>\<open>n < 0\<close> is false for every value, so once the candidates are decoded and scored the
  pass never jumps to \<^verbatim>\<open>fail\<close>: it runs the second loop with \<^verbatim>\<open>n\<close> as its bound.  For a
  negative return value of at least \<open>-2^31\<close> that bound is \<open>2^32 + r\<close>, at least \<open>2^31\<close>.
\<close>

theorem select_result_unsigned:
  assumes "disasm_mutants cs st bin dis (bb_mutate st dis (hd Q)) = Some ms1"
    and "bb_select st dis ms1 = (r, ms2)"
  shows "\<not> (word_of_int r :: 32 word) < 0 \<and>
         section_step cs st ndebug bin (dis, Q) \<noteq> Goto_fail \<and>
         section_step cs st ndebug bin (dis, Q) =
           (case accept_loop ndebug ms2 0 (word_of_int r) (dis, tl Q) of
              Inl f \<Rightarrow> Stopped f
            | Inr s' \<Rightarrow> Next s') \<and>
         (- (2 ^ 31) \<le> r \<and> r < 0 \<longrightarrow>
            unat (word_of_int r :: 32 word) = nat (2 ^ 32 + r) \<and>
            2 ^ 31 \<le> unat (word_of_int r :: 32 word))"
proof -
  have step: "section_step cs st ndebug bin (dis, Q) =
           (case accept_loop ndebug ms2 0 (word_of_int r) (dis, tl Q) of
              Inl f \<Rightarrow> Stopped f
            | Inr s' \<Rightarrow> Next s')"
    using assms by (simp add: section_step_def Let_def)
  then have "section_step cs st ndebug bin (dis, Q) \<noteq> Goto_fail"
    by (simp split: sum.splits)
  moreover have "unat (word_of_int r :: 32 word) = nat (2 ^ 32 + r) \<and>
      2 ^ 31 \<le> unat (word_of_int r :: 32 word)" if "- (2 ^ 31) \<le> r" "r < 0"
  proof -
    have "2 ^ 31 \<le> nat (2 ^ 32 + r)" using that by simp
    then show ?thesis using word_of_int_negative [OF that] by simp
  qed
  moreover have "\<not> (word_of_int r :: 32 word) < 0" by simp
  ultimately show ?thesis using step by blast
qed

section \<open>The first loop of a pass on the concrete inputs\<close>

lemma binary_elf_arch [simp]: "bin_arch binary_elf = ARCH_X86"
  by (simp add: binary_elf_def)

lemma toy_bb_1000:
  "nucleus_disasm_bb capstone_toy binary_elf dis_1000 (BB_at 0x1000) =
     (2, snd (nucleus_disasm_bb_x86 capstone_toy binary_elf dis_1000 (BB_at 0x1000)))"
  by (simp add: nucleus_disasm_bb_def toy_1000)

lemma toy_bb_1002:
  "nucleus_disasm_bb capstone_toy binary_elf dis_1000 (BB_at 0x1002) =
     (1, snd (nucleus_disasm_bb_x86 capstone_toy binary_elf dis_1000 (BB_at 0x1002)))"
  by (simp add: nucleus_disasm_bb_def toy_1002)

theorem select_result_unsigned_witness:
  "disasm_mutants capstone_toy strategy_minus1 binary_elf dis_1000
     (bb_mutate strategy_minus1 dis_1000 (hd [None])) =
     Some [snd (nucleus_disasm_bb_x86 capstone_toy binary_elf dis_1000 (BB_at 0x1000))] \<and>
   bb_select strategy_minus1 dis_1000
     [snd (nucleus_disasm_bb_x86 capstone_toy binary_elf dis_1000 (BB_at 0x1000))] =
     (- 1, [snd (nucleus_disasm_bb_x86 capstone_toy binary_elf dis_1000 (BB_at 0x1000))]) \<and>
   unat (word_of_int (- 1) :: 32 word) = 4294967295 \<and>
   section_step capstone_toy strategy_minus1 False binary_elf (dis_1000, [None]) =
     Stopped OutOfBounds"
proof -
  let ?b = "snd (nucleus_disasm_bb_x86 capstone_toy binary_elf dis_1000 (BB_at 0x1000))"
  have dm: "disasm_mutants capstone_toy strategy_minus1 binary_elf dis_1000
     (bb_mutate strategy_minus1 dis_1000 (hd [None])) = Some [?b]"
    by (simp add: strategy_minus1_def toy_bb_1000)
  have sel: "bb_select strategy_minus1 dis_1000 [?b] = (- 1, [?b])"
    by (simp add: strategy_minus1_def)
  have dead: "\<not> bb_alive ?b" by (simp add: toy_1000)
  have n: "unat (word_of_int (- 1) :: 32 word) = 4294967295"
    by (simp add: unsigned_minus_1_eq_mask mask_eq_exp_minus_1)
  have "accept_loop False [?b] 0 (word_of_int (- 1)) (dis_1000, tl [None]) = Inl OutOfBounds"
    using dead
    by (simp add: accept_loop.simps [of _ _ 0] accept_loop.simps [of _ _ 1] accept_mutant_def
        word_less_nat_alt unsigned_minus_1_eq_mask mask_eq_exp_minus_1)
  with select_result_unsigned [OF dm sel, of False] dm sel n show ?thesis by simp
qed

section \<open>Recording the surviving candidates\<close>

lemma grows_refl [simp]: "grows am am"
  by (simp add: grows_def)

lemma grows_trans: "grows am am1 \<Longrightarrow> grows am1 am2 \<Longrightarrow> grows am am2"
  by (simp add: grows_def)

lemma word_or_and_self: "(t OR f) AND f = f" for t f :: "32 word"
  by (rule bit_eqI) (auto simp: bit_and_iff bit_or_iff)

lemma word_or_and_keep:
  fixes t f g :: "32 word"
  assumes "t AND g = g"
  shows "(t OR f) AND g = g"
proof (rule bit_eqI)
  fix k
  have "bit g k \<Longrightarrow> bit t k" using assms by (metis bit_and_iff)
  then show "bit ((t OR f) AND g) k = bit g k" by (auto simp: bit_and_iff bit_or_iff)
qed

lemma add_addr_flag_tracked:
  assumes "AddressMap_add_addr_flag ndebug am a f = Inr am'"
    and "ndebug \<longrightarrow> AddressMap_contains am a"
  shows "flagged am' a f"
proof -
  from assms have c: "AddressMap_contains am a"
    by (auto simp: AddressMap_add_addr_flag_def split: if_splits)
  with assms(1) show ?thesis
    by (auto simp: AddressMap_add_addr_flag_def flagged_def Let_def word_or_and_self
        split: if_splits)
qed

lemma add_addr_flag_grows:
  assumes "AddressMap_add_addr_flag ndebug am a f = Inr am'"
  shows "grows am am'"
proof -
  have "flagged am' b g" if "flagged am b g" for b g
  proof (cases "AddressMap_contains am a")
    case False
    with assms that show ?thesis
      by (auto simp: AddressMap_add_addr_flag_def split: if_splits)
  next
    case True
    with assms that show ?thesis
      by (cases "b = a")
         (auto simp: AddressMap_add_addr_flag_def flagged_def Let_def word_or_and_keep
           split: if_splits option.splits)
  qed
  then show ?thesis
    using contains_add_addr_flag [OF assms] by (simp add: grows_def)
qed

lemma flag_insns_spec:
  "flag_insns ndebug insns am = Inr am' \<Longrightarrow>
   grows am am' \<and>
   (\<forall>ins \<in> set insns. (ndebug \<longrightarrow> AddressMap_contains am (ins_start ins)) \<longrightarrow>
      flagged am' (ins_start ins) DISASM_REGION_INS_START)"
proof (induction insns arbitrary: am)
  case Nil
  then show ?case by simp
next
  case (Cons i rest)
  then obtain am1 where
    1: "AddressMap_add_addr_flag ndebug am (ins_start i) DISASM_REGION_INS_START = Inr am1"
    and 2: "flag_insns ndebug rest am1 = Inr am'"
    by (auto split: sum.splits)
  note g1 = add_addr_flag_grows [OF 1]
  from Cons.IH [OF 2] have g2: "grows am1 am'"
    and r: "\<forall>ins \<in> set rest. (ndebug \<longrightarrow> AddressMap_contains am1 (ins_start ins)) \<longrightarrow>
      flagged am' (ins_start ins) DISASM_REGION_INS_START"
    by simp_all
  have "flagged am' (ins_start i) DISASM_REGION_INS_START"
    if "ndebug \<longrightarrow> AddressMap_contains am (ins_start i)"
    using add_addr_flag_tracked [OF 1 that] g2 by (simp add: grows_def)
  moreover have "\<forall>ins \<in> set rest. (ndebug \<longrightarrow> AddressMap_contains am (ins_start ins)) \<longrightarrow>
      flagged am' (ins_start ins) DISASM_REGION_INS_START"
    using r g1 by (auto simp: grows_def)
  ultimately show ?case using grows_trans [OF g1 g2] by auto
qed

lemma word_range_step:
  fixes vma bound b :: "64 word"
  assumes "vma < bound"
  shows "unat (vma + 1) = unat vma + 1"
    and "(vma \<le> b \<and> b < bound) \<longleftrightarrow> b = vma \<or> (vma + 1 \<le> b \<and> b < bound)"
proof -
  from assms have less: "unat vma < unat bound" by (simp add: word_less_nat_alt)
  moreover have "unat bound < 2 ^ LENGTH(64)" by (rule unsigned_less)
  ultimately have "unat vma + unat (1 :: 64 word) < 2 ^ LENGTH(64)" by simp
  then show suc: "unat (vma + 1) = unat vma + 1" by (simp add: unat_add_lem [THEN iffD1])
  show "(vma \<le> b \<and> b < bound) \<longleftrightarrow> b = vma \<or> (vma + 1 \<le> b \<and> b < bound)"
    using suc less by (auto simp: word_le_nat_alt word_less_nat_alt word_unat_eq_iff)
qed

lemma flag_code_spec:
  "flag_code ndebug vma bound am = Inr am' \<Longrightarrow>
   grows am am' \<and>
   (\<forall>a. vma \<le> a \<and> a < bound \<and> (ndebug \<longrightarrow> AddressMap_contains am a) \<longrightarrow>
      flagged am' a DISASM_REGION_CODE)"
proof (induction ndebug vma bound am rule: flag_code.induct)
  case (1 ndebug vma bound am)
  show ?case
  proof (cases "vma < bound")
    case False
    with "1.prems" have "am' = am" by (simp add: flag_code.simps)
    with False show ?thesis by auto
  next
    case True
    with "1.prems" obtain am1 where
      a: "AddressMap_add_addr_flag ndebug am vma DISASM_REGION_CODE = Inr am1"
      and l: "flag_code ndebug (vma + 1) bound am1 = Inr am'"
      by (subst (asm) flag_code.simps) (auto split: sum.splits)
    note g1 = add_addr_flag_grows [OF a]
    from "1.IH" [OF True a l] have g2: "grows am1 am'"
      and r: "\<forall>a. vma + 1 \<le> a \<and> a < bound \<and> (ndebug \<longrightarrow> AddressMap_contains am1 a) \<longrightarrow>
        flagged am' a DISASM_REGION_CODE"
      by simp_all
    have "flagged am' vma DISASM_REGION_CODE" if "ndebug \<longrightarrow> AddressMap_contains am vma"
      using add_addr_flag_tracked [OF a that] g2 by (simp add: grows_def)
    moreover have "\<forall>a. vma + 1 \<le> a \<and> a < bound \<and> (ndebug \<longrightarrow> AddressMap_contains am a) \<longrightarrow>
        flagged am' a DISASM_REGION_CODE"
      using r g1 by (auto simp: grows_def)
    ultimately have all: "\<And>a. a = vma \<or> (vma + 1 \<le> a \<and> a < bound) \<Longrightarrow>
        ndebug \<longrightarrow> AddressMap_contains am a \<Longrightarrow> flagged am' a DISASM_REGION_CODE"
      by blast
    have "flagged am' a DISASM_REGION_CODE"
      if "vma \<le> a \<and> a < bound \<and> (ndebug \<longrightarrow> AddressMap_contains am a)" for a
    proof -
      from that word_range_step(2) [OF True, of a]
      have "a = vma \<or> (vma + 1 \<le> a \<and> a < bound)" by blast
      with that show ?thesis by (intro all) simp_all
    qed
    then show ?thesis using grows_trans [OF g1 g2] by blast
  qed
qed

lemma accept_mutant_dead:
  "\<not> bb_alive m \<Longrightarrow> accept_mutant ndebug m s = Inr s"
  by (simp add: accept_mutant_def split: prod.splits)

lemma accept_mutant_alive:
  assumes "accept_mutant ndebug m s = Inr s'" and "bb_alive m"
  shows "grows (dis_addrmap (fst s)) (dis_addrmap (fst s')) \<and>
         recorded ndebug (dis_addrmap (fst s)) (dis_addrmap (fst s')) m \<and>
         dis_BBs (fst s') = dis_BBs (fst s) @ [m] \<and> snd s' = snd s @ [Some m]"
proof -
  obtain dis Q where s: "s = (dis, Q)" by (cases s)
  from assms s obtain am1 am2 am3 where
    1: "AddressMap_add_addr_flag ndebug (dis_addrmap dis) (bb_start m) DISASM_REGION_BB_START = Inr am1"
    and 2: "flag_insns ndebug (bb_insns m) am1 = Inr am2"
    and 3: "flag_code ndebug (bb_start m) (bb_end m) am2 = Inr am3"
    and s': "s' = (dis\<lparr>dis_addrmap := am3, dis_BBs := dis_BBs dis @ [m]\<rparr>, Q @ [Some m])"
    by (auto simp: accept_mutant_def split: sum.splits)
  note g1 = add_addr_flag_grows [OF 1]
  from flag_insns_spec [OF 2] have g2: "grows am1 am2"
    and i: "\<forall>ins \<in> set (bb_insns m). (ndebug \<longrightarrow> AddressMap_contains am1 (ins_start ins)) \<longrightarrow>
      flagged am2 (ins_start ins) DISASM_REGION_INS_START"
    by simp_all
  from flag_code_spec [OF 3] have g3: "grows am2 am3"
    and c: "\<forall>a. bb_start m \<le> a \<and> a < bb_end m \<and> (ndebug \<longrightarrow> AddressMap_contains am2 a) \<longrightarrow>
      flagged am3 a DISASM_REGION_CODE"
    by simp_all
  have g12: "grows (dis_addrmap dis) am2" using g1 g2 by (rule grows_trans)
  have g: "grows (dis_addrmap dis) am3" using g12 g3 by (rule grows_trans)
  have "recorded ndebug (dis_addrmap dis) am3 m"
    unfolding recorded_def
  proof (intro conjI ballI allI impI)
    assume "ndebug \<longrightarrow> AddressMap_contains (dis_addrmap dis) (bb_start m)"
    from add_addr_flag_tracked [OF 1 this] g2 g3
    show "flagged am3 (bb_start m) DISASM_REGION_BB_START" by (simp add: grows_def)
  next
    fix ins
    assume "ins \<in> set (bb_insns m)"
      and "ndebug \<longrightarrow> AddressMap_contains (dis_addrmap dis) (ins_start ins)"
    with i g1 g3 show "flagged am3 (ins_start ins) DISASM_REGION_INS_START"
      by (auto simp: grows_def)
  next
    fix a
    assume "bb_start m \<le> a \<and> a < bb_end m \<and> (ndebug \<longrightarrow> AddressMap_contains (dis_addrmap dis) a)"
    with c g12 show "flagged am3 a DISASM_REGION_CODE" by (auto simp: grows_def)
  qed
  with g s s' show ?thesis by simp
qed

lemma recorded_later:
  "recorded ndebug am0 am1 m \<Longrightarrow> grows am1 am2 \<Longrightarrow> recorded ndebug am0 am2 m"
  unfolding recorded_def grows_def by blast

lemma recorded_earlier:
  "grows am0 am1 \<Longrightarrow> recorded ndebug am1 am2 m \<Longrightarrow> recorded ndebug am0 am2 m"
  unfolding recorded_def grows_def by blast

lemma accept_loop_spec:
  "accept_loop ndebug ms i n s = Inr s' \<Longrightarrow>
   grows (dis_addrmap (fst s)) (dis_addrmap (fst s')) \<and>
   (i < n \<longrightarrow> unat n \<le> length ms) \<and>
   (\<forall>j. unat i \<le> j \<and> j < unat n \<and> bb_alive (ms ! j) \<longrightarrow>
      recorded ndebug (dis_addrmap (fst s)) (dis_addrmap (fst s')) (ms ! j)) \<and>
   dis_BBs (fst s') = dis_BBs (fst s) @ filter bb_alive (drop (unat i) (take (unat n) ms)) \<and>
   snd s' = snd s @ map Some (filter bb_alive (drop (unat i) (take (unat n) ms)))"
proof (induction ndebug ms i n s rule: accept_loop.induct)
  case (1 ndebug ms i n s)
  show ?case
  proof (cases "i < n")
    case False
    with "1.prems" have "s' = s" by (simp add: accept_loop.simps)
    moreover from False have "unat n \<le> unat i" by (simp add: word_less_nat_alt)
    ultimately show ?thesis using False by auto
  next
    case True
    then have less: "unat i < unat n" by (simp add: word_less_nat_alt)
    moreover have "unat n < 2 ^ LENGTH(32)" by (rule unsigned_less)
    ultimately have "unat i + unat (1 :: 32 word) < 2 ^ LENGTH(32)" by simp
    then have suc: "unat (i + 1) = unat i + 1" by (simp add: unat_add_lem [THEN iffD1])
    from "1.prems" True have inb: "unat i < length ms"
      by (subst (asm) accept_loop.simps) (auto split: if_splits)
    with "1.prems" True obtain s1 where
      a: "accept_mutant ndebug (ms ! unat i) s = Inr s1"
      and l: "accept_loop ndebug ms (i + 1) n s1 = Inr s'"
      by (subst (asm) accept_loop.simps) (auto split: sum.splits)
    let ?m = "ms ! unat i"
    from "1.IH" [OF True inb a l] have
      g2: "grows (dis_addrmap (fst s1)) (dis_addrmap (fst s'))"
      and len: "i + 1 < n \<longrightarrow> unat n \<le> length ms"
      and rec: "\<forall>j. unat i + 1 \<le> j \<and> j < unat n \<and> bb_alive (ms ! j) \<longrightarrow>
        recorded ndebug (dis_addrmap (fst s1)) (dis_addrmap (fst s')) (ms ! j)"
      and bbs: "dis_BBs (fst s') = dis_BBs (fst s1) @
          filter bb_alive (drop (unat i + 1) (take (unat n) ms))"
      and q: "snd s' = snd s1 @ map Some (filter bb_alive (drop (unat i + 1) (take (unat n) ms)))"
      by (simp_all add: suc)
    have nlen: "unat n \<le> length ms"
    proof (cases "i + 1 < n")
      case True
      with len show ?thesis by simp
    next
      case False
      then have "unat n \<le> unat i + 1" by (simp add: word_less_nat_alt suc)
      with inb show ?thesis by simp
    qed
    have dr: "drop (unat i) (take (unat n) ms) = ?m # drop (unat i + 1) (take (unat n) ms)"
      using less inb by (simp add: Cons_nth_drop_Suc [symmetric])
    have one: "grows (dis_addrmap (fst s)) (dis_addrmap (fst s1)) \<and>
        (bb_alive ?m \<longrightarrow> recorded ndebug (dis_addrmap (fst s)) (dis_addrmap (fst s1)) ?m) \<and>
        dis_BBs (fst s1) = dis_BBs (fst s) @ filter bb_alive [?m] \<and>
        snd s1 = snd s @ map Some (filter bb_alive [?m])"
    proof (cases "bb_alive ?m")
      case True
      with accept_mutant_alive [OF a True] show ?thesis by simp
    next
      case False
      with a have "s1 = s" by (simp add: accept_mutant_dead)
      with False show ?thesis by simp
    qed
    then have g1: "grows (dis_addrmap (fst s)) (dis_addrmap (fst s1))" by simp
    have "recorded ndebug (dis_addrmap (fst s)) (dis_addrmap (fst s')) (ms ! j)"
      if "unat i \<le> j" "j < unat n" "bb_alive (ms ! j)" for j
    proof (cases "j = unat i")
      case True
      with one that g2 show ?thesis by (auto intro: recorded_later)
    next
      case False
      with that rec have "recorded ndebug (dis_addrmap (fst s1)) (dis_addrmap (fst s')) (ms ! j)"
        by simp
      with g1 show ?thesis by (rule recorded_earlier)
    qed
    moreover have "dis_BBs (fst s') = dis_BBs (fst s) @
        filter bb_alive (drop (unat i) (take (unat n) ms))"
      using one bbs by (simp add: dr)
    moreover have "snd s' = snd s @ map Some (filter bb_alive (drop (unat i) (take (unat n) ms)))"
      using one q by (simp add: dr)
    ultimately show ?thesis
      using grows_trans [OF g1 g2] nlen by blast
  qed
qed

text \<open>The calls on tracked addresses do not stop the program.\<close>

lemma add_addr_flag_total:
  "AddressMap_contains am a \<Longrightarrow> \<exists>am'. AddressMap_add_addr_flag ndebug am a f = Inr am'"
  by (simp add: AddressMap_add_addr_flag_def Let_def)

lemma flag_insns_total:
  "\<forall>ins \<in> set insns. AddressMap_contains am (ins_start ins) \<Longrightarrow>
   \<exists>am'. flag_insns ndebug insns am = Inr am'"
proof (induction insns arbitrary: am)
  case Nil
  then show ?case by simp
next
  case (Cons i rest)
  then have "AddressMap_contains am (ins_start i)" by simp
  from add_addr_flag_total [OF this] obtain am1 where
    1: "AddressMap_add_addr_flag ndebug am (ins_start i) DISASM_REGION_INS_START = Inr am1"
    by blast
  from add_addr_flag_grows [OF 1] Cons.prems
  have "\<forall>ins \<in> set rest. AddressMap_contains am1 (ins_start ins)" by (simp add: grows_def)
  from Cons.IH [OF this] 1 show ?case by simp
qed

lemma flag_code_total:
  "\<forall>a. vma \<le> a \<and> a < bound \<longrightarrow> AddressMap_contains am a \<Longrightarrow>
   \<exists>am'. flag_code ndebug vma bound am = Inr am'"
proof (induction ndebug vma bound am rule: flag_code.induct)
  case (1 ndebug vma bound am)
  show ?case
  proof (cases "vma < bound")
    case False
    then show ?thesis by (simp add: flag_code.simps)
  next
    case True
    with "1.prems" have "AddressMap_contains am vma" by simp
    then obtain am1 where
      a: "AddressMap_add_addr_flag ndebug am vma DISASM_REGION_CODE = Inr am1"
      using add_addr_flag_total by blast
    have "\<forall>a. vma + 1 \<le> a \<and> a < bound \<longrightarrow> AddressMap_contains am1 a"
      using "1.prems" add_addr_flag_grows [OF a] word_range_step(2) [OF True]
      by (simp add: grows_def)
    from "1.IH" [OF True a this] obtain am' where
      "flag_code ndebug (vma + 1) bound am1 = Inr am'" by blast
    with a True show ?thesis by (subst flag_code.simps) simp
  qed
qed

lemma accept_mutant_total:
  assumes "AddressMap_contains (dis_addrmap (fst s)) (bb_start m)"
    and "\<forall>ins \<in> set (bb_insns m). AddressMap_contains (dis_addrmap (fst s)) (ins_start ins)"
    and "\<forall>a. bb_start m \<le> a \<and> a < bb_end m \<longrightarrow> AddressMap_contains (dis_addrmap (fst s)) a"
  shows "\<exists>s'. accept_mutant ndebug m s = Inr s'"
proof -
  obtain dis Q where s: "s = (dis, Q)" by (cases s)
  from assms(1) s have "AddressMap_contains (dis_addrmap dis) (bb_start m)" by simp
  from add_addr_flag_total [OF this] obtain am1 where
    1: "AddressMap_add_addr_flag ndebug (dis_addrmap dis) (bb_start m) DISASM_REGION_BB_START = Inr am1"
    by blast
  note g1 = add_addr_flag_grows [OF 1]
  from assms(2) s g1 have "\<forall>ins \<in> set (bb_insns m). AddressMap_contains am1 (ins_start ins)"
    by (simp add: grows_def)
  from flag_insns_total [OF this] obtain am2 where
    2: "flag_insns ndebug (bb_insns m) am1 = Inr am2" by blast
  from flag_insns_spec [OF 2] have g2: "grows am1 am2" by simp
  from assms(3) s g1 g2 have "\<forall>a. bb_start m \<le> a \<and> a < bb_end m \<longrightarrow> AddressMap_contains am2 a"
    by (simp add: grows_def)
  from flag_code_total [OF this] obtain am3 where
    3: "flag_code ndebug (bb_start m) (bb_end m) am2 = Inr am3" by blast
  from 1 2 3 s show ?thesis by (simp add: accept_mutant_def)
qed

text \<open>
  C6, amended.  In a pass of the worklist loop that completes, let \<open>n\<close> be the value that
  \<open>bb_select\<close> returned, as an unsigned number.  Then \<open>n\<close> is at most the number of
  candidates, and every one of the first \<open>n\<close> candidates whose \<open>alive\<close> flag is set is
  recorded: its start is flagged BB_START, every start of one of its instructions
  INS_START and every byte of \<open>[start, end)\<close> CODE (with \<^verbatim>\<open>NDEBUG\<close>: as far as the
  AddressMap tracks the address; without, the pass only completes if it tracks them
  all); the copies of these candidates, in their order, are appended to the list of
  blocks and to the queue.  A candidate whose \<open>alive\<close> flag is not set leaves the
  AddressMap, the list and the queue as they are.
\<close>

theorem survivors_recorded:
  assumes "disasm_mutants cs st bin dis (bb_mutate st dis (hd Q)) = Some ms1"
    and "bb_select st dis ms1 = (r, ms)"
    and "section_step cs st ndebug bin (dis, Q) = Next (dis', Q')"
  shows "unat (word_of_int r :: 32 word) \<le> length ms \<and>
         (\<forall>j < unat (word_of_int r :: 32 word). bb_alive (ms ! j) \<longrightarrow>
            recorded ndebug (dis_addrmap dis) (dis_addrmap dis') (ms ! j)) \<and>
         dis_BBs dis' =
           dis_BBs dis @ filter bb_alive (take (unat (word_of_int r :: 32 word)) ms) \<and>
         Q' = tl Q @ map Some (filter bb_alive (take (unat (word_of_int r :: 32 word)) ms)) \<and>
         (\<forall>m s. \<not> bb_alive m \<longrightarrow> accept_mutant ndebug m s = Inr s)"
proof -
  let ?n = "word_of_int r :: 32 word"
  from assms have "accept_loop ndebug ms 0 ?n (dis, tl Q) = Inr (dis', Q')"
    by (simp add: section_step_def Let_def split: sum.splits)
  from accept_loop_spec [OF this] have
    len: "0 < ?n \<longrightarrow> unat ?n \<le> length ms"
    and rec: "\<forall>j. j < unat ?n \<and> bb_alive (ms ! j) \<longrightarrow>
      recorded ndebug (dis_addrmap dis) (dis_addrmap dis') (ms ! j)"
    and bbs: "dis_BBs dis' = dis_BBs dis @ filter bb_alive (take (unat ?n) ms)"
    and q: "Q' = tl Q @ map Some (filter bb_alive (take (unat ?n) ms))"
    by simp_all
  have "unat ?n \<le> length ms"
  proof (cases "?n = 0")
    case True
    then show ?thesis by simp
  next
    case False
    then have "0 < ?n" by (simp add: word_gt_0)
    with len show ?thesis by simp
  qed
  with rec bbs q show ?thesis by (simp add: accept_mutant_dead)
qed

theorem survivors_recorded_witness:
  "disasm_mutants capstone_toy strategy_all binary_elf dis_1000
     (bb_mutate strategy_all dis_1000 (hd [None])) =
     Some [snd (nucleus_disasm_bb_x86 capstone_toy binary_elf dis_1000 (BB_at 0x1002))] \<and>
   bb_select strategy_all dis_1000
     [snd (nucleus_disasm_bb_x86 capstone_toy binary_elf dis_1000 (BB_at 0x1002))] =
     (1, [(snd (nucleus_disasm_bb_x86 capstone_toy binary_elf dis_1000 (BB_at 0x1002)))
            \<lparr>bb_alive := True\<rparr>]) \<and>
   (\<exists>dis' Q'.
      section_step capstone_toy strategy_all False binary_elf (dis_1000, [None]) = Next (dis', Q') \<and>
      flagged (dis_addrmap dis') 0x1002 DISASM_REGION_BB_START \<and>
      flagged (dis_addrmap dis') 0x1002 DISASM_REGION_INS_START \<and>
      flagged (dis_addrmap dis') 0x1002 DISASM_REGION_CODE \<and>
      dis_BBs dis' =
        [(snd (nucleus_disasm_bb_x86 capstone_toy binary_elf dis_1000 (BB_at 0x1002)))
           \<lparr>bb_alive := True\<rparr>] \<and>
      Q' = [Some ((snd (nucleus_disasm_bb_x86 capstone_toy binary_elf dis_1000 (BB_at 0x1002)))
                    \<lparr>bb_alive := True\<rparr>)])"
proof -
  let ?b = "snd (nucleus_disasm_bb_x86 capstone_toy binary_elf dis_1000 (BB_at 0x1002))"
  let ?a = "?b\<lparr>bb_alive := True\<rparr>"
  have dm: "disasm_mutants capstone_toy strategy_all binary_elf dis_1000
     (bb_mutate strategy_all dis_1000 (hd [None])) = Some [?b]"
    by (simp add: strategy_all_def toy_bb_1002)
  have sel: "bb_select strategy_all dis_1000 [?b] = (1, [?a])"
    by (simp add: strategy_all_def)
  have b: "bb_start ?a = 0x1002" "bb_end ?a = 0x1003" "bb_alive ?a"
    "bb_insns ?a = [new_Instruction binary_elf (toy_ret 0x1002)]"
    by (simp_all add: toy_1002)
  have tr: "AddressMap_contains (dis_addrmap dis_1000) a = in_section section_1000 a" for a
    using init_DisasmSection_addrmap [of section_1000]
    by (simp add: dis_1000_def) (simp add: section_1000_def)
  have "\<exists>s1. accept_mutant False ?a (dis_1000, []) = Inr s1"
    by (rule accept_mutant_total)
       (auto simp: b tr toy_ret_def in_section_def section_1000_def word_le_nat_alt
         word_less_nat_alt)
  then have "\<exists>s'. accept_loop False [?a] 0 1 (dis_1000, []) = Inr s'"
    by (auto simp: accept_loop.simps [of _ _ 0] accept_loop.simps [of _ _ 1])
  then obtain dis' Q' where
    step: "section_step capstone_toy strategy_all False binary_elf (dis_1000, [None]) = Next (dis', Q')"
    using dm sel by (auto simp: section_step_def Let_def)
  from survivors_recorded [OF dm sel step]
  have rec: "recorded False (dis_addrmap dis_1000) (dis_addrmap dis') ?a"
    and bbs: "dis_BBs dis' = dis_BBs dis_1000 @ [?a]" and q: "Q' = [Some ?a]"
    using b(3) by simp_all
  have "dis_BBs dis_1000 = []" by (simp add: dis_1000_def init_DisasmSection_def)
  moreover from rec have "flagged (dis_addrmap dis') 0x1002 DISASM_REGION_BB_START"
    "flagged (dis_addrmap dis') 0x1002 DISASM_REGION_INS_START"
    "flagged (dis_addrmap dis') 0x1002 DISASM_REGION_CODE"
    unfolding recorded_def b by (simp_all add: toy_ret_def)
  ultimately show ?thesis using dm sel step bbs q by simp
qed

text \<open>
  C6 as stated fails when \<open>bb_select\<close> returns the number of survivors and a survivor
  stands behind a candidate that was dropped: the second loop runs over the first
  \<open>n\<close> candidates only.  Of the two blocks of the scenario the policy keeps the second
  and returns 1; the pass ends with the AddressMap, the list of blocks and the queue
  as they were, although the second candidate is alive.
\<close>

theorem survivor_not_recorded:
  "disasm_mutants capstone_toy strategy_last binary_elf dis_1000
     (bb_mutate strategy_last dis_1000 (hd [None])) =
     Some [snd (nucleus_disasm_bb_x86 capstone_toy binary_elf dis_1000 (BB_at 0x1000)),
           snd (nucleus_disasm_bb_x86 capstone_toy binary_elf dis_1000 (BB_at 0x1002))] \<and>
   fst (bb_select strategy_last dis_1000
     [snd (nucleus_disasm_bb_x86 capstone_toy binary_elf dis_1000 (BB_at 0x1000)),
      snd (nucleus_disasm_bb_x86 capstone_toy binary_elf dis_1000 (BB_at 0x1002))]) = 1 \<and>
   bb_alive (snd (bb_select strategy_last dis_1000
     [snd (nucleus_disasm_bb_x86 capstone_toy binary_elf dis_1000 (BB_at 0x1000)),
      snd (nucleus_disasm_bb_x86 capstone_toy binary_elf dis_1000 (BB_at 0x1002))]) ! 1) \<and>
   section_step capstone_toy strategy_last False binary_elf (dis_1000, [None]) =
     Next (dis_1000, [])"
proof -
  let ?b0 = "snd (nucleus_disasm_bb_x86 capstone_toy binary_elf dis_1000 (BB_at 0x1000))"
  let ?b2 = "snd (nucleus_disasm_bb_x86 capstone_toy binary_elf dis_1000 (BB_at 0x1002))"
  have dm: "disasm_mutants capstone_toy strategy_last binary_elf dis_1000
     (bb_mutate strategy_last dis_1000 (hd [None])) = Some [?b0, ?b2]"
    by (simp add: strategy_last_def toy_bb_1000 toy_bb_1002)
  have sel: "bb_select strategy_last dis_1000 [?b0, ?b2] =
      (1, [?b0\<lparr>bb_alive := False\<rparr>, ?b2\<lparr>bb_alive := True\<rparr>])"
    by (simp add: strategy_last_def)
  have "accept_loop False [?b0\<lparr>bb_alive := False\<rparr>, ?b2\<lparr>bb_alive := True\<rparr>] 0 1 (dis_1000, []) =
      Inr (dis_1000, [])"
    by (simp add: accept_loop.simps [of _ _ 0] accept_loop.simps [of _ _ 1] accept_mutant_dead)
  with dm sel show ?thesis by (simp add: section_step_def Let_def)
qed

section \<open>The calls of a pass on the AddressMap\<close>

text \<open>What a pass of the worklist loop does to the AddressMap is a sequence of the
  engine's calls of \<^verbatim>\<open>add_addr_flag\<close>: the partition of the address map holds after
  every pass.\<close>

lemma calls_append:
  "AddressMap_calls ndebug am cs = Inr am1 \<Longrightarrow> AddressMap_calls ndebug am1 ds = Inr am2 \<Longrightarrow>
   AddressMap_calls ndebug am (cs @ ds) = Inr am2"
  by (induction cs arbitrary: am) (auto split: sum.splits)

lemma engine_call_flags [simp]:
  "engine_call (Call_add_addr_flag a DISASM_REGION_BB_START)"
  "engine_call (Call_add_addr_flag a DISASM_REGION_INS_START)"
  "engine_call (Call_add_addr_flag a DISASM_REGION_CODE)"
  by (simp_all add: engine_call_def)

lemma flag_insns_calls:
  "flag_insns ndebug insns am = Inr am' \<Longrightarrow>
   \<exists>cs. list_all engine_call cs \<and> AddressMap_calls ndebug am cs = Inr am'"
proof (induction insns arbitrary: am)
  case Nil
  then show ?case by (intro exI [of _ "[]"]) simp
next
  case (Cons i rest)
  then obtain am1 where
    1: "AddressMap_add_addr_flag ndebug am (ins_start i) DISASM_REGION_INS_START = Inr am1"
    and 2: "flag_insns ndebug rest am1 = Inr am'"
    by (auto split: sum.splits)
  from Cons.IH [OF 2] obtain cs where "list_all engine_call cs"
    "AddressMap_calls ndebug am1 cs = Inr am'" by blast
  with 1 show ?case
    by (intro exI [of _ "Call_add_addr_flag (ins_start i) DISASM_REGION_INS_START # cs"]) simp
qed

lemma flag_code_calls:
  "flag_code ndebug vma bound am = Inr am' \<Longrightarrow>
   \<exists>cs. list_all engine_call cs \<and> AddressMap_calls ndebug am cs = Inr am'"
proof (induction ndebug vma bound am rule: flag_code.induct)
  case (1 ndebug vma bound am)
  show ?case
  proof (cases "vma < bound")
    case False
    with "1.prems" have "am' = am" by (simp add: flag_code.simps)
    then show ?thesis by (intro exI [of _ "[]"]) simp
  next
    case True
    with "1.prems" obtain am1 where
      a: "AddressMap_add_addr_flag ndebug am vma DISASM_REGION_CODE = Inr am1"
      and l: "flag_code ndebug (vma + 1) bound am1 = Inr am'"
      by (subst (asm) flag_code.simps) (auto split: sum.splits)
    from "1.IH" [OF True a l] obtain cs where "list_all engine_call cs"
      "AddressMap_calls ndebug am1 cs = Inr am'" by blast
    with a show ?thesis
      by (intro exI [of _ "Call_add_addr_flag vma DISASM_REGION_CODE # cs"]) simp
  qed
qed

lemma accept_mutant_calls:
  assumes "accept_mutant ndebug m s = Inr s'"
  shows "\<exists>cs. list_all engine_call cs \<and>
           AddressMap_calls ndebug (dis_addrmap (fst s)) cs = Inr (dis_addrmap (fst s')) \<and>
           dis_section (fst s') = dis_section (fst s)"
proof (cases "bb_alive m")
  case False
  with assms have "s' = s" by (simp add: accept_mutant_dead)
  then show ?thesis by (intro exI [of _ "[]"]) simp
next
  case True
  obtain dis Q where s: "s = (dis, Q)" by (cases s)
  from assms s True obtain am1 am2 am3 where
    1: "AddressMap_add_addr_flag ndebug (dis_addrmap dis) (bb_start m) DISASM_REGION_BB_START = Inr am1"
    and 2: "flag_insns ndebug (bb_insns m) am1 = Inr am2"
    and 3: "flag_code ndebug (bb_start m) (bb_end m) am2 = Inr am3"
    and s': "s' = (dis\<lparr>dis_addrmap := am3, dis_BBs := dis_BBs dis @ [m]\<rparr>, Q @ [Some m])"
    by (auto simp: accept_mutant_def split: sum.splits)
  from flag_insns_calls [OF 2] obtain cs2 where
    c2: "list_all engine_call cs2" "AddressMap_calls ndebug am1 cs2 = Inr am2" by blast
  from flag_code_calls [OF 3] obtain cs3 where
    c3: "list_all engine_call cs3" "AddressMap_calls ndebug am2 cs3 = Inr am3" by blast
  have "AddressMap_calls ndebug (dis_addrmap dis)
      (Call_add_addr_flag (bb_start m) DISASM_REGION_BB_START # cs2 @ cs3) = Inr am3"
    using 1 calls_append [OF c2(2) c3(2)] by simp
  with c2(1) c3(1) s s' show ?thesis
    by (intro exI [of _ "Call_add_addr_flag (bb_start m) DISASM_REGION_BB_START # cs2 @ cs3"]) simp
qed

lemma accept_loop_calls:
  "accept_loop ndebug ms i n s = Inr s' \<Longrightarrow>
   \<exists>cs. list_all engine_call cs \<and>
        AddressMap_calls ndebug (dis_addrmap (fst s)) cs = Inr (dis_addrmap (fst s')) \<and>
        dis_section (fst s') = dis_section (fst s)"
proof (induction ndebug ms i n s rule: accept_loop.induct)
  case (1 ndebug ms i n s)
  show ?case
  proof (cases "i < n")
    case False
    with "1.prems" have "s' = s" by (simp add: accept_loop.simps)
    then show ?thesis by (intro exI [of _ "[]"]) simp
  next
    case True
    from "1.prems" True have inb: "unat i < length ms"
      by (subst (asm) accept_loop.simps) (auto split: if_splits)
    with "1.prems" True obtain s1 where
      a: "accept_mutant ndebug (ms ! unat i) s = Inr s1"
      and l: "accept_loop ndebug ms (i + 1) n s1 = Inr s'"
      by (subst (asm) accept_loop.simps) (auto split: sum.splits)
    from accept_mutant_calls [OF a] obtain cs where
      c: "list_all engine_call cs"
      "AddressMap_calls ndebug (dis_addrmap (fst s)) cs = Inr (dis_addrmap (fst s1))"
      "dis_section (fst s1) = dis_section (fst s)" by blast
    from "1.IH" [OF True inb a l] obtain ds where
      d: "list_all engine_call ds"
      "AddressMap_calls ndebug (dis_addrmap (fst s1)) ds = Inr (dis_addrmap (fst s'))"
      "dis_section (fst s') = dis_section (fst s1)" by blast
    from c d calls_append [OF c(2) d(2)] show ?thesis
      by (intro exI [of _ "cs @ ds"]) simp
  qed
qed

lemma section_step_calls:
  assumes "section_step cs st ndebug bin (dis, Q) = Next (dis', Q')"
  shows "\<exists>calls. list_all engine_call calls \<and>
           AddressMap_calls ndebug (dis_addrmap dis) calls = Inr (dis_addrmap dis') \<and>
           dis_section dis' = dis_section dis"
proof -
  from assms obtain ms n where "accept_loop ndebug ms 0 n (dis, tl Q) = Inr (dis', Q')"
    by (auto simp: section_step_def Let_def split: option.splits prod.splits if_splits sum.splits)
  from accept_loop_calls [OF this] show ?thesis by simp
qed

end
